theory Spec2Isabelle
  imports Main "HOL-Library.Multiset"
begin

section \<open>Sorting engine (src/utils/sortingAlgorithms.js)\<close>

text \<open>
  A sorting step is the object \<^verbatim>\<open>{ type, indices, array }\<close>; the three values of
  \<^verbatim>\<open>type\<close> are the three constructors. \<^verbatim>\<open>array\<close> is the copy \<^verbatim>\<open>[...array]\<close> taken when
  the step is pushed. The source mutates the working array and the list \<^verbatim>\<open>steps\<close> in
  place; the model threads the pair of both through every loop. Indices are JavaScript
  numbers; where the source can reach \<open>-1\<close> (\<^verbatim>\<open>low - 1\<close>, \<^verbatim>\<open>array.length - 1\<close>) they are
  integers, and an array is read at \<open>nat i\<close>. Every read and write of the three sorts is
  inside the array: the helpers are local functions, reached only from
  \<^verbatim>\<open>0 .. array.length - 1\<close>.
\<close>

datatype sstep =
    Compare (indices: "int list") (array: "int list")
  | Swap (indices: "int list") (array: "int list")
  | Sorted (indices: "int list") (array: "int list")

type_synonym sstate = "int list \<times> sstep list"

fun is_compare :: "sstep \<Rightarrow> bool" where
  "is_compare (Compare _ _) = True"
| "is_compare _ = False"

fun is_sorted_step :: "sstep \<Rightarrow> bool" where
  "is_sorted_step (Sorted _ _) = True"
| "is_sorted_step _ = False"

subsection \<open>bubbleSort\<close>

text \<open>
  The inner loop \<^verbatim>\<open>for (let j = 0; j < n - i - 1; j++)\<close>. It only runs inside the outer
  loop, where \<^verbatim>\<open>i < n\<close>, so \<^verbatim>\<open>n - i - 1\<close> is not negative and the subtraction on
  \<open>nat\<close> is the source's.
\<close>

function bubble_inner :: "nat \<Rightarrow> nat \<Rightarrow> nat \<Rightarrow> sstate \<Rightarrow> sstate" where
  "bubble_inner n i j (arr, steps) =
     (if j < n - i - 1 then
        let steps1 = steps @ [Compare [int j, int (j + 1)] arr] in
        if arr ! j > arr ! (j + 1) then
          let arr1 = arr[j := arr ! (j + 1), j + 1 := arr ! j] in
          bubble_inner n i (j + 1) (arr1, steps1 @ [Swap [int j, int (j + 1)] arr1])
        else bubble_inner n i (j + 1) (arr, steps1)
      else (arr, steps))"
  by pat_completeness auto
termination
  by (relation "measure (\<lambda>(n, i, j, s). n - i - 1 - j)") auto

declare bubble_inner.simps [simp del]

text \<open>
  The outer loop \<^verbatim>\<open>for (let i = 0; i < n; i++)\<close>; the \<open>sorted\<close> step carries
  \<^verbatim>\<open>Array.from({ length: n - i }, (_, idx) => n - 1 - idx)\<close>.
\<close>

function bubble_outer :: "nat \<Rightarrow> nat \<Rightarrow> sstate \<Rightarrow> sstate" where
  "bubble_outer n i (arr, steps) =
     (if i < n then
        let (arr1, steps1) = bubble_inner n i 0 (arr, steps) in
        bubble_outer n (i + 1)
          (arr1, steps1 @ [Sorted (map (\<lambda>idx. int (n - 1 - idx)) [0..<n - i]) arr1])
      else (arr, steps))"
  by pat_completeness auto
termination
  by (relation "measure (\<lambda>(n, i, s). n - i)") auto

declare bubble_outer.simps [simp del]

definition bubbleSort :: "int list \<Rightarrow> sstep list" where
  "bubbleSort arr = snd (bubble_outer (length arr) 0 (arr, []))"

subsection \<open>mergeSort\<close>

text \<open>\<^verbatim>\<open>Array.prototype.slice(start, end)\<close>: negative arguments count from the end, both
  are clamped to the length.\<close>

definition slice :: "int list \<Rightarrow> int \<Rightarrow> int \<Rightarrow> int list" where
  "slice xs s e =
     (let n = int (length xs);
          s1 = (if s < 0 then max (n + s) 0 else min s n);
          e1 = (if e < 0 then max (n + e) 0 else min e n)
      in take (nat (e1 - s1)) (drop (nat s1) xs))"

text \<open>
  The three loops of \<^verbatim>\<open>merge\<close>: the first compares and writes while both halves have
  elements, the other two copy what is left of the left and of the right half.
\<close>

function merge_both ::
  "int list \<Rightarrow> int list \<Rightarrow> int \<Rightarrow> int \<Rightarrow> nat \<Rightarrow> nat \<Rightarrow> int \<Rightarrow> sstate \<Rightarrow> nat \<times> nat \<times> int \<times> sstate" where
  "merge_both leftArr rightArr left mid i j k (arr, steps) =
     (if i < length leftArr \<and> j < length rightArr then
        let steps1 = steps @ [Compare [left + int i, mid + 1 + int j] arr] in
        if leftArr ! i \<le> rightArr ! j then
          let arr1 = arr[nat k := leftArr ! i] in
          merge_both leftArr rightArr left mid (i + 1) j (k + 1) (arr1, steps1 @ [Swap [k] arr1])
        else
          let arr1 = arr[nat k := rightArr ! j] in
          merge_both leftArr rightArr left mid i (j + 1) (k + 1) (arr1, steps1 @ [Swap [k] arr1])
      else (i, j, k, (arr, steps)))"
  by pat_completeness auto
termination
  by (relation "measure (\<lambda>(l, r, left, mid, i, j, k, s). (length l - i) + (length r - j))") auto

declare merge_both.simps [simp del]

function merge_rest :: "int list \<Rightarrow> nat \<Rightarrow> int \<Rightarrow> sstate \<Rightarrow> int \<times> sstate" where
  "merge_rest src i k (arr, steps) =
     (if i < length src then
        let arr1 = arr[nat k := src ! i] in
        merge_rest src (i + 1) (k + 1) (arr1, steps @ [Swap [k] arr1])
      else (k, (arr, steps)))"
  by pat_completeness auto
termination
  by (relation "measure (\<lambda>(src, i, k, s). length src - i)") auto

declare merge_rest.simps [simp del]

definition merge :: "int \<Rightarrow> int \<Rightarrow> int \<Rightarrow> sstate \<Rightarrow> sstate" where
  "merge left mid right st =
     (let leftArr = slice (fst st) left (mid + 1);
          rightArr = slice (fst st) (mid + 1) (right + 1);
          (i, j, k, st1) = merge_both leftArr rightArr left mid 0 0 left st;
          (k1, st2) = merge_rest leftArr i k st1;
          (k2, st3) = merge_rest rightArr j k1 st2
      in st3)"

function mergeSortHelper :: "int \<Rightarrow> int \<Rightarrow> sstate \<Rightarrow> sstate" where
  "mergeSortHelper left right st =
     (if left < right then
        let mid = (left + right) div 2 in
        merge left mid right (mergeSortHelper (mid + 1) right (mergeSortHelper left mid st))
      else st)"
  by pat_completeness auto
termination
  by (relation "measure (\<lambda>(left, right, st). nat (right - left))") auto

declare mergeSortHelper.simps [simp del]

definition mergeSort :: "int list \<Rightarrow> sstep list" where
  "mergeSort arr = snd (mergeSortHelper 0 (int (length arr) - 1) (arr, []))"

subsection \<open>quickSort\<close>

text \<open>The loop \<^verbatim>\<open>for (let j = low; j < high; j++)\<close> of the Lomuto \<^verbatim>\<open>partition\<close>.\<close>

function partition_loop :: "int \<Rightarrow> int \<Rightarrow> int \<Rightarrow> int \<Rightarrow> sstate \<Rightarrow> int \<times> sstate" where
  "partition_loop high pivot i j (arr, steps) =
     (if j < high then
        let steps1 = steps @ [Compare [j, high] arr] in
        if arr ! nat j < pivot then
          let i1 = i + 1;
              arr1 = arr[nat i1 := arr ! nat j, nat j := arr ! nat i1] in
          partition_loop high pivot i1 (j + 1) (arr1, steps1 @ [Swap [i1, j] arr1])
        else partition_loop high pivot i (j + 1) (arr, steps1)
      else (i, (arr, steps)))"
  by pat_completeness auto
termination
  by (relation "measure (\<lambda>(high, pivot, i, j, s). nat (high - j))") auto

declare partition_loop.simps [simp del]

definition partition :: "int \<Rightarrow> int \<Rightarrow> sstate \<Rightarrow> int \<times> sstate" where
  "partition low high st =
     (let pivot = fst st ! nat high;
          (i, (arr, steps)) = partition_loop high pivot (low - 1) low st;
          arr1 = arr[nat (i + 1) := arr ! nat high, nat high := arr ! nat (i + 1)]
      in (i + 1, (arr1, steps @ [Swap [i + 1, high] arr1])))"

lemma partition_loop_bounds:
  "i < j \<Longrightarrow> j \<le> high \<Longrightarrow> fst (partition_loop high pivot i j st) < high"
proof (induction high pivot i j st rule: partition_loop.induct)
  case (1 high pivot i j arr steps)
  then show ?case by (subst partition_loop.simps) (auto simp: Let_def)
qed

lemma partition_loop_lower:
  "i \<le> fst (partition_loop high pivot i j st)"
proof (induction high pivot i j st rule: partition_loop.induct)
  case (1 high pivot i j arr steps)
  then show ?case by (subst partition_loop.simps) (fastforce simp: Let_def)
qed

function quickSortHelper :: "int \<Rightarrow> int \<Rightarrow> sstate \<Rightarrow> sstate" where
  "quickSortHelper low high st =
     (if low < high then
        let (pidx, st1) = partition low high st in
        quickSortHelper (pidx + 1) high (quickSortHelper low (pidx - 1) st1)
      else st)"
  by pat_completeness auto
termination
proof (relation "measure (\<lambda>(low, high, st). nat (high - low + 1))", goal_cases)
  case 1 show ?case by simp
next
  case (2 low high st x pidx st1)
  then show ?case
    using partition_loop_bounds[of "low - 1" low high "fst st ! nat high" st]
      partition_loop_lower[of "low - 1" high "fst st ! nat high" low st]
    by (auto simp: partition_def Let_def split: prod.splits)
next
  case (3 low high st x pidx st1)
  then show ?case
    using partition_loop_bounds[of "low - 1" low high "fst st ! nat high" st]
      partition_loop_lower[of "low - 1" high "fst st ! nat high" low st]
    by (auto simp: partition_def Let_def split: prod.splits)
qed

declare quickSortHelper.simps [simp del]

definition quickSort :: "int list \<Rightarrow> sstep list" where
  "quickSort arr = snd (quickSortHelper 0 (int (length arr) - 1) (arr, []))"


section \<open>Properties of the sorting engine\<close>

subsection \<open>Snapshots\<close>

definition tracked :: "sstate \<Rightarrow> bool" where
  "tracked st \<longleftrightarrow> (snd st \<noteq> [] \<longrightarrow> array (last (snd st)) = fst st)"

definition snap_inv :: "int multiset \<Rightarrow> sstate \<Rightarrow> bool" where
  "snap_inv M st \<longleftrightarrow> mset (fst st) = M \<and> (\<forall>s \<in> set (snd st). mset (array s) = M) \<and> tracked st"

lemma mset_swap_nth:
  "i < length xs \<Longrightarrow> j < length xs \<Longrightarrow> mset (xs[i := xs ! j, j := xs ! i]) = mset xs"
  by (simp add: mset_swap)

lemma snap_inv_push_compare:
  "snap_inv M (a, s) \<Longrightarrow> snap_inv M (a, s @ [Compare ix a])"
  by (simp add: snap_inv_def tracked_def)

lemma snap_inv_push_sorted:
  "snap_inv M (a, s) \<Longrightarrow> snap_inv M (a, s @ [Sorted ix a])"
  by (simp add: snap_inv_def tracked_def)

lemma snap_inv_swap:
  "snap_inv M (a, s) \<Longrightarrow> i < length a \<Longrightarrow> j < length a \<Longrightarrow>
   snap_inv M (a[i := a ! j, j := a ! i], s @ [Swap ix (a[i := a ! j, j := a ! i])])"
  by (simp add: snap_inv_def tracked_def mset_swap_nth)

subsection \<open>bubbleSort sorts\<close>

lemma bubble_inner_length: "length (fst (bubble_inner n i j st)) = length (fst st)"
proof (induction n i j st rule: bubble_inner.induct)
  case (1 n i j arr steps)
  then show ?case by (simp add: bubble_inner.simps[of n i j] Let_def)
qed

lemma bubble_inner_snap:
  "snap_inv M st \<Longrightarrow> n \<le> length (fst st) \<Longrightarrow>
   snap_inv M (bubble_inner n i j st) \<and> length (fst (bubble_inner n i j st)) = length (fst st)"
proof (induction n i j st rule: bubble_inner.induct)
  case (1 n i j arr steps)
  show ?case
  proof (cases "j < n - i - 1")
    case False
    with "1.prems" show ?thesis by (simp add: bubble_inner.simps)
  next
    case inr: True
    let ?s1 = "steps @ [Compare [int j, int (j + 1)] arr]"
    have s1: "snap_inv M (arr, ?s1)"
      using "1.prems"(1) by (rule snap_inv_push_compare)
    show ?thesis
    proof (cases "arr ! j > arr ! (j + 1)")
      case True
      let ?a1 = "arr[j := arr ! (j + 1), j + 1 := arr ! j]"
      have "snap_inv M (?a1, ?s1 @ [Swap [int j, int (j + 1)] ?a1])"
        using s1 inr "1.prems"(2) by (intro snap_inv_swap) auto
      from "1.IH"(1)[OF inr refl True refl this] "1.prems"(2) inr True show ?thesis
        by (simp add: bubble_inner.simps[of n i j] Let_def)
    next
      case False
      from "1.IH"(2)[OF inr refl False s1] "1.prems"(2) inr False show ?thesis
        by (simp add: bubble_inner.simps[of n i j] Let_def)
    qed
  qed
qed

lemma bubble_inner_pass:
  assumes "length (fst st) = n" "i < n" "j \<le> n - i - 1" "\<forall>k<j. fst st ! k \<le> fst st ! j"
  shows "(\<forall>k. n - i \<le> k \<longrightarrow> fst (bubble_inner n i j st) ! k = fst st ! k)
       \<and> (\<forall>k<n - i. fst (bubble_inner n i j st) ! k \<le> fst (bubble_inner n i j st) ! (n - i - 1))
       \<and> (\<forall>k<n - i. \<exists>k'<n - i. fst (bubble_inner n i j st) ! k = fst st ! k')"
  using assms
proof (induction n i j st rule: bubble_inner.induct)
  case (1 n i j arr steps)
  show ?case
  proof (cases "j < n - i - 1")
    case False
    with "1.prems" have j: "j = n - i - 1" by simp
    have "\<forall>k<n - i. arr ! k \<le> arr ! (n - i - 1)"
    proof (intro allI impI)
      fix k assume "k < n - i"
      then have "k < j \<or> k = j" using j by auto
      with "1.prems"(4) j show "arr ! k \<le> arr ! (n - i - 1)" by auto
    qed
    with False show ?thesis by (auto simp: bubble_inner.simps[of n i j])
  next
    case inr: True
    let ?s1 = "steps @ [Compare [int j, int (j + 1)] arr]"
    have len: "length arr = n" using "1.prems"(1) by simp
    have jb: "j + 1 < n - i" "j + 1 < length arr" using inr len by auto
    show ?thesis
    proof (cases "arr ! j > arr ! (j + 1)")
      case True
      let ?a1 = "arr[j := arr ! (j + 1), j + 1 := arr ! j]"
      let ?r = "bubble_inner n i (j + 1) (?a1, ?s1 @ [Swap [int j, int (j + 1)] ?a1])"
      have eq: "bubble_inner n i j (arr, steps) = ?r"
        using inr True by (simp add: bubble_inner.simps[of n i j] Let_def)
      have pre: "\<forall>k<j + 1. ?a1 ! k \<le> ?a1 ! (j + 1)"
      proof (intro allI impI)
        fix k assume "k < j + 1"
        then consider "k < j" | "k = j" by linarith
        then show "?a1 ! k \<le> ?a1 ! (j + 1)"
        proof cases
          case 1
          with "1.prems"(4) True jb show ?thesis by (simp add: nth_list_update)
        next
          case 2
          with True jb show ?thesis by (simp add: nth_list_update)
        qed
      qed
      have ih: "(\<forall>k. n - i \<le> k \<longrightarrow> fst ?r ! k = ?a1 ! k)
         \<and> (\<forall>k<n - i. fst ?r ! k \<le> fst ?r ! (n - i - 1))
         \<and> (\<forall>k<n - i. \<exists>k'<n - i. fst ?r ! k = ?a1 ! k')"
        using "1.IH"(1)[OF inr refl True refl] len "1.prems"(2) jb pre by simp
      have a1_from: "\<And>k'. k' < n - i \<Longrightarrow> \<exists>k''<n - i. ?a1 ! k' = arr ! k''"
      proof -
        fix k' assume k': "k' < n - i"
        consider "k' = j" | "k' = j + 1" | "k' \<noteq> j \<and> k' \<noteq> j + 1" by blast
        then show "\<exists>k''<n - i. ?a1 ! k' = arr ! k''"
        proof cases
          case 1 then show ?thesis using jb by (intro exI[of _ "j + 1"]) (simp add: nth_list_update)
        next
          case 2 then show ?thesis using jb by (intro exI[of _ j]) (simp add: nth_list_update)
        next
          case 3 then show ?thesis using k' by (intro exI[of _ k']) (simp add: nth_list_update)
        qed
      qed
      have a1_suffix: "\<And>k. n - i \<le> k \<Longrightarrow> ?a1 ! k = arr ! k"
        using jb by (simp add: nth_list_update)
      show ?thesis unfolding eq using ih a1_from a1_suffix by (simp) metis
    next
      case False
      let ?r = "bubble_inner n i (j + 1) (arr, ?s1)"
      have eq: "bubble_inner n i j (arr, steps) = ?r"
        using inr False by (simp add: bubble_inner.simps[of n i j] Let_def)
      have pre: "\<forall>k<j + 1. arr ! k \<le> arr ! (j + 1)"
      proof (intro allI impI)
        fix k assume "k < j + 1"
        then consider "k < j" | "k = j" by linarith
        then show "arr ! k \<le> arr ! (j + 1)"
        proof cases
          case 1
          with "1.prems"(4) False show ?thesis by (smt (verit) fst_conv)
        next
          case 2
          with False show ?thesis by simp
        qed
      qed
      show ?thesis unfolding eq
        using "1.IH"(2)[OF inr refl False] len "1.prems"(2) jb pre by simp
    qed
  qed
qed


definition settled :: "nat \<Rightarrow> nat \<Rightarrow> int list \<Rightarrow> bool" where
  "settled n i a \<longleftrightarrow>
     (\<forall>p q. n - i \<le> p \<and> p \<le> q \<and> q < n \<longrightarrow> a ! p \<le> a ! q) \<and>
     (\<forall>p q. p < n - i \<and> n - i \<le> q \<and> q < n \<longrightarrow> a ! p \<le> a ! q)"

lemma settled_pass:
  assumes i: "i < n" and inv: "settled n i a"
    and suf: "\<forall>k. n - i \<le> k \<longrightarrow> b ! k = a ! k"
    and top: "\<forall>k<n - i. b ! k \<le> b ! (n - i - 1)"
    and src: "\<forall>k<n - i. \<exists>k'<n - i. b ! k = a ! k'"
  shows "settled n (i + 1) b"
  unfolding settled_def
proof (intro conjI allI impI)
  fix p q assume h: "n - (i + 1) \<le> p \<and> p \<le> q \<and> q < n"
  show "b ! p \<le> b ! q"
  proof (cases "p = n - i - 1")
    case True
    show ?thesis
    proof (cases "q = p")
      case True then show ?thesis by simp
    next
      case False
      with h True have q: "n - i \<le> q" by linarith
      from True i have "p < n - i" by linarith
      with src obtain k' where k': "k' < n - i" "b ! p = a ! k'" by blast
      from inv k' q h have "a ! k' \<le> a ! q" unfolding settled_def by blast
      with k' suf q show ?thesis by simp
    qed
  next
    case False
    with h have p: "n - i \<le> p" by linarith
    with h have q: "n - i \<le> q" by linarith
    from inv p h have "a ! p \<le> a ! q" unfolding settled_def by blast
    with suf p q show ?thesis by simp
  qed
next
  fix p q assume h: "p < n - (i + 1) \<and> n - (i + 1) \<le> q \<and> q < n"
  then have pl: "p < n - i" by linarith
  show "b ! p \<le> b ! q"
  proof (cases "q = n - i - 1")
    case True
    with top pl show ?thesis by simp
  next
    case False
    with h have q: "n - i \<le> q" by linarith
    from src pl obtain k' where k': "k' < n - i" "b ! p = a ! k'" by blast
    from inv k' q h have "a ! k' \<le> a ! q" unfolding settled_def by blast
    with k' suf q show ?thesis by simp
  qed
qed

lemma bubble_outer_sorted:
  "length (fst st) = n \<Longrightarrow> i \<le> n \<Longrightarrow> settled n i (fst st) \<Longrightarrow>
   sorted (fst (bubble_outer n i st))"
proof (induction n i st rule: bubble_outer.induct)
  case (1 n i arr steps)
  show ?case
  proof (cases "i < n")
    case False
    with "1.prems" have "i = n" by simp
    with "1.prems"(1,3) have "\<forall>p q. p \<le> q \<and> q < length arr \<longrightarrow> arr ! p \<le> arr ! q"
      unfolding settled_def by simp
    then have "sorted arr" by (simp add: sorted_iff_nth_mono)
    with False show ?thesis by (simp add: bubble_outer.simps[of n i])
  next
    case True
    obtain a1 s1 where inner: "bubble_inner n i 0 (arr, steps) = (a1, s1)"
      by (cases "bubble_inner n i 0 (arr, steps)")
    have len1: "length a1 = n"
      using bubble_inner_length[of n i 0 "(arr, steps)"] inner "1.prems"(1) by simp
    let ?st1 = "(a1, s1 @ [Sorted (map (\<lambda>idx. int (n - 1 - idx)) [0..<n - i]) a1])"
    have eq: "bubble_outer n i (arr, steps) = bubble_outer n (i + 1) ?st1"
      using True inner by (simp add: bubble_outer.simps[of n i])
    have "settled n (i + 1) a1"
      using bubble_inner_pass[of "(arr, steps)" n i 0] "1.prems" True inner
      by (intro settled_pass[of i n arr a1]) auto
    with "1.IH"[OF True inner[symmetric] refl] len1 True show ?thesis
      unfolding eq by simp
  qed
qed

lemma bubble_outer_snap:
  "snap_inv M st \<Longrightarrow> n \<le> length (fst st) \<Longrightarrow> snap_inv M (bubble_outer n i st)"
proof (induction n i st rule: bubble_outer.induct)
  case (1 n i arr steps)
  show ?case
  proof (cases "i < n")
    case False
    with "1.prems" show ?thesis by (simp add: bubble_outer.simps[of n i])
  next
    case True
    obtain a1 s1 where inner: "bubble_inner n i 0 (arr, steps) = (a1, s1)"
      by (cases "bubble_inner n i 0 (arr, steps)")
    let ?st1 = "(a1, s1 @ [Sorted (map (\<lambda>idx. int (n - 1 - idx)) [0..<n - i]) a1])"
    have eq: "bubble_outer n i (arr, steps) = bubble_outer n (i + 1) ?st1"
      using True inner by (simp add: bubble_outer.simps[of n i])
    from bubble_inner_snap[OF "1.prems", of i 0] inner
    have "snap_inv M (a1, s1)" "length a1 = length arr" by simp_all
    with "1.prems"(2) have "snap_inv M ?st1" "n \<le> length (fst ?st1)"
      by (simp_all add: snap_inv_push_sorted)
    with "1.IH"[OF True inner[symmetric] refl] show ?thesis unfolding eq by simp
  qed
qed

lemma snap_inv_init: "snap_inv (mset arr) (arr, [])"
  by (simp add: snap_inv_def tracked_def)

lemma settled_init: "settled n 0 a"
  by (simp add: settled_def)

lemma bubbleSort_final:
  assumes "bubbleSort arr \<noteq> []"
  shows "sorted (array (last (bubbleSort arr)))" "mset (array (last (bubbleSort arr))) = mset arr"
proof -
  let ?r = "bubble_outer (length arr) 0 (arr, [])"
  have inv: "snap_inv (mset arr) ?r"
    by (rule bubble_outer_snap[OF snap_inv_init]) simp
  have srt: "sorted (fst ?r)"
    by (rule bubble_outer_sorted) (simp_all add: settled_init)
  from inv assms have last: "array (last (bubbleSort arr)) = fst ?r"
    by (simp add: snap_inv_def tracked_def bubbleSort_def)
  from srt last show "sorted (array (last (bubbleSort arr)))" by simp
  from inv last show "mset (array (last (bubbleSort arr))) = mset arr"
    by (simp add: snap_inv_def)
qed

lemma bubbleSort_snapshots: "s \<in> set (bubbleSort arr) \<Longrightarrow> mset (array s) = mset arr"
  using bubble_outer_snap[OF snap_inv_init, of "length arr" arr 0]
  by (simp add: snap_inv_def bubbleSort_def)


subsection \<open>quickSort sorts\<close>

definition same_outside :: "int list \<Rightarrow> int list \<Rightarrow> int \<Rightarrow> int \<Rightarrow> bool" where
  "same_outside a b low high \<longleftrightarrow>
     length b = length a \<and> (\<forall>p. 0 \<le> p \<and> (p < low \<or> high < p) \<longrightarrow> b ! nat p = a ! nat p)"

definition drawn_from :: "int list \<Rightarrow> int list \<Rightarrow> int \<Rightarrow> int \<Rightarrow> bool" where
  "drawn_from a b low high \<longleftrightarrow>
     (\<forall>p. low \<le> p \<and> p \<le> high \<longrightarrow> (\<exists>q. low \<le> q \<and> q \<le> high \<and> b ! nat p = a ! nat q))"

definition range_sorted :: "int list \<Rightarrow> int \<Rightarrow> int \<Rightarrow> bool" where
  "range_sorted a low high \<longleftrightarrow> (\<forall>p q. low \<le> p \<and> p \<le> q \<and> q \<le> high \<longrightarrow> a ! nat p \<le> a ! nat q)"

lemma same_outside_refl: "same_outside a a low high"
  by (simp add: same_outside_def)

lemma drawn_from_refl: "drawn_from a a low high"
  by (auto simp: drawn_from_def)

lemma same_outside_trans:
  "same_outside a b l h \<Longrightarrow> same_outside b c l' h' \<Longrightarrow> l \<le> l' \<Longrightarrow> h' \<le> h \<Longrightarrow>
   same_outside a c l h"
  unfolding same_outside_def
proof (intro conjI allI impI)
  assume a: "length b = length a \<and> (\<forall>p. 0 \<le> p \<and> (p < l \<or> h < p) \<longrightarrow> b ! nat p = a ! nat p)"
    and b: "length c = length b \<and> (\<forall>p. 0 \<le> p \<and> (p < l' \<or> h' < p) \<longrightarrow> c ! nat p = b ! nat p)"
    and le: "l \<le> l'" "h' \<le> h"
  from a b show "length c = length a" by simp
  fix p assume p: "0 \<le> p \<and> (p < l \<or> h < p)"
  with le have "0 \<le> p \<and> (p < l' \<or> h' < p)" by auto
  with b have "c ! nat p = b ! nat p" by blast
  with a p show "c ! nat p = a ! nat p" by simp
qed

lemma drawn_from_trans:
  assumes ab: "drawn_from a b l h" and bc: "drawn_from b c l' h'" and so: "same_outside b c l' h'"
    and "0 \<le> l" "l \<le> l'" "h' \<le> h"
  shows "drawn_from a c l h"
  unfolding drawn_from_def
proof (intro allI impI)
  fix p assume p: "l \<le> p \<and> p \<le> h"
  have "\<exists>q. l \<le> q \<and> q \<le> h \<and> c ! nat p = b ! nat q"
  proof (cases "l' \<le> p \<and> p \<le> h'")
    case True
    with bc obtain q where "l' \<le> q" "q \<le> h'" "c ! nat p = b ! nat q"
      unfolding drawn_from_def by blast
    with assms(5,6) show ?thesis by (intro exI[of _ q]) auto
  next
    case False
    with so p assms(4) have "c ! nat p = b ! nat p" unfolding same_outside_def by auto
    with p show ?thesis by blast
  qed
  then obtain q where q: "l \<le> q" "q \<le> h" "c ! nat p = b ! nat q" by blast
  with ab obtain q' where "l \<le> q'" "q' \<le> h" "b ! nat q = a ! nat q'"
    unfolding drawn_from_def by blast
  with q show "\<exists>q. l \<le> q \<and> q \<le> h \<and> c ! nat p = a ! nat q" by auto
qed

lemma swap_nth_int:
  "0 \<le> a \<Longrightarrow> 0 \<le> b \<Longrightarrow> a < int (length xs) \<Longrightarrow> b < int (length xs) \<Longrightarrow> 0 \<le> p \<Longrightarrow>
   (xs[nat a := xs ! nat b, nat b := xs ! nat a]) ! nat p =
     (if p = b then xs ! nat a else if p = a then xs ! nat b else xs ! nat p)"
  by (auto simp: nth_list_update nat_eq_iff)

lemma swap_same_outside:
  assumes "0 \<le> l" "l \<le> a" "a \<le> h" "l \<le> b" "b \<le> h" "h < int (length xs)"
  shows "same_outside xs (xs[nat a := xs ! nat b, nat b := xs ! nat a]) l h"
  unfolding same_outside_def using assms by (auto simp: swap_nth_int)

lemma swap_drawn_from:
  assumes "0 \<le> l" "l \<le> a" "a \<le> h" "l \<le> b" "b \<le> h" "h < int (length xs)"
  shows "drawn_from xs (xs[nat a := xs ! nat b, nat b := xs ! nat a]) l h"
  unfolding drawn_from_def
proof (intro allI impI)
  fix p assume p: "l \<le> p \<and> p \<le> h"
  let ?ys = "xs[nat a := xs ! nat b, nat b := xs ! nat a]"
  from p assms have eq: "?ys ! nat p = (if p = b then xs ! nat a else if p = a then xs ! nat b else xs ! nat p)"
    by (intro swap_nth_int) auto
  consider "p = b" | "p \<noteq> b" "p = a" | "p \<noteq> b" "p \<noteq> a" by blast
  then show "\<exists>q. l \<le> q \<and> q \<le> h \<and> ?ys ! nat p = xs ! nat q"
  proof cases
    case 1 with eq assms show ?thesis by (intro exI[of _ a]) simp
  next
    case 2 with eq assms show ?thesis by (intro exI[of _ b]) simp
  next
    case 3 with eq p show ?thesis by (intro exI[of _ p]) simp
  qed
qed

lemma partition_loop_spec:
  assumes "0 \<le> low" "low - 1 \<le> i" "i < j" "j \<le> high" "high < int (length (fst st))"
    "\<forall>p. low \<le> p \<and> p \<le> i \<longrightarrow> fst st ! nat p < pivot"
    "\<forall>p. i < p \<and> p < j \<longrightarrow> pivot \<le> fst st ! nat p"
  shows "case partition_loop high pivot i j st of (i', (arr', steps')) \<Rightarrow>
     low - 1 \<le> i' \<and> i' < high \<and>
     (\<forall>p. low \<le> p \<and> p \<le> i' \<longrightarrow> arr' ! nat p < pivot) \<and>
     (\<forall>p. i' < p \<and> p < high \<longrightarrow> pivot \<le> arr' ! nat p) \<and>
     same_outside (fst st) arr' low (high - 1) \<and> drawn_from (fst st) arr' low (high - 1)"
  using assms
proof (induction high pivot i j st rule: partition_loop.induct)
  case (1 high pivot i j arr steps)
  show ?case
  proof (cases "j < high")
    case False
    have eq: "partition_loop high pivot i j (arr, steps) = (i, (arr, steps))"
      using False by (simp add: partition_loop.simps[of high pivot i j])
    from False "1.prems" have "j = high" by simp
    with "1.prems" show ?thesis unfolding eq
      by (simp add: same_outside_refl drawn_from_refl)
  next
    case inr: True
    let ?s1 = "steps @ [Compare [j, high] arr]"
    show ?thesis
    proof (cases "arr ! nat j < pivot")
      case True
      let ?i1 = "i + 1"
      let ?a1 = "arr[nat ?i1 := arr ! nat j, nat j := arr ! nat ?i1]"
      let ?st1 = "(?a1, ?s1 @ [Swap [?i1, j] ?a1])"
      have eq: "partition_loop high pivot i j (arr, steps) = partition_loop high pivot ?i1 (j + 1) ?st1"
        using inr True by (simp add: partition_loop.simps[of high pivot i j] Let_def)
      have rng: "0 \<le> ?i1" "0 \<le> j" "?i1 < int (length arr)" "j < int (length arr)" "low \<le> ?i1" "?i1 \<le> j"
        using "1.prems" inr by auto
      have nth: "\<And>p. 0 \<le> p \<Longrightarrow> ?a1 ! nat p =
          (if p = j then arr ! nat ?i1 else if p = ?i1 then arr ! nat j else arr ! nat p)"
        using rng by (intro swap_nth_int) auto
      have p1: "\<forall>p. low \<le> p \<and> p \<le> ?i1 \<longrightarrow> fst ?st1 ! nat p < pivot"
      proof (intro allI impI)
        fix p assume p: "low \<le> p \<and> p \<le> ?i1"
        with "1.prems"(1) have "0 \<le> p" by simp
        from nth[OF this] p True "1.prems"(6) rng show "fst ?st1 ! nat p < pivot"
          by (cases "p = ?i1") auto
      qed
      have p2: "\<forall>p. ?i1 < p \<and> p < j + 1 \<longrightarrow> pivot \<le> fst ?st1 ! nat p"
      proof (intro allI impI)
        fix p assume p: "?i1 < p \<and> p < j + 1"
        with rng have "0 \<le> p" by simp
        from nth[OF this] p "1.prems"(7) rng show "pivot \<le> fst ?st1 ! nat p"
          by (cases "p = j") auto
      qed
      obtain i' arr' steps' where r: "partition_loop high pivot ?i1 (j + 1) ?st1 = (i', (arr', steps'))"
        by (metis prod.exhaust)
      have "case partition_loop high pivot ?i1 (j + 1) ?st1 of (i', (arr', steps')) \<Rightarrow>
         low - 1 \<le> i' \<and> i' < high \<and>
         (\<forall>p. low \<le> p \<and> p \<le> i' \<longrightarrow> arr' ! nat p < pivot) \<and>
         (\<forall>p. i' < p \<and> p < high \<longrightarrow> pivot \<le> arr' ! nat p) \<and>
         same_outside (fst ?st1) arr' low (high - 1) \<and> drawn_from (fst ?st1) arr' low (high - 1)"
        using "1.prems"(1,2,3,4,5) inr p1 p2
        by (intro "1.IH"(1)[OF inr refl True refl refl]) auto
      then have ih: "low - 1 \<le> i'" "i' < high"
         "\<forall>p. low \<le> p \<and> p \<le> i' \<longrightarrow> arr' ! nat p < pivot"
         "\<forall>p. i' < p \<and> p < high \<longrightarrow> pivot \<le> arr' ! nat p"
         "same_outside ?a1 arr' low (high - 1)" "drawn_from ?a1 arr' low (high - 1)"
        unfolding r by simp_all
      have so: "same_outside arr ?a1 low (high - 1)"
        using rng inr "1.prems" by (intro swap_same_outside) auto
      have df: "drawn_from arr ?a1 low (high - 1)"
        using rng inr "1.prems" by (intro swap_drawn_from) auto
      have so': "same_outside arr arr' low (high - 1)"
        by (rule same_outside_trans[OF so ih(5)]) simp_all
      have df': "drawn_from arr arr' low (high - 1)"
        by (rule drawn_from_trans[OF df ih(6) ih(5) "1.prems"(1)]) simp_all
      show ?thesis unfolding eq r using ih(1-4) so' df' by simp
    next
      case False
      have eq: "partition_loop high pivot i j (arr, steps) = partition_loop high pivot i (j + 1) (arr, ?s1)"
        using inr False by (simp add: partition_loop.simps[of high pivot i j] Let_def)
      have p2: "\<forall>p. i < p \<and> p < j + 1 \<longrightarrow> pivot \<le> fst (arr, ?s1) ! nat p"
      proof (intro allI impI)
        fix p assume p: "i < p \<and> p < j + 1"
        with "1.prems"(7) False show "pivot \<le> fst (arr, ?s1) ! nat p"
          by (cases "p = j") auto
      qed
      have "case partition_loop high pivot i (j + 1) (arr, ?s1) of (i', (arr', steps')) \<Rightarrow>
         low - 1 \<le> i' \<and> i' < high \<and>
         (\<forall>p. low \<le> p \<and> p \<le> i' \<longrightarrow> arr' ! nat p < pivot) \<and>
         (\<forall>p. i' < p \<and> p < high \<longrightarrow> pivot \<le> arr' ! nat p) \<and>
         same_outside (fst (arr, ?s1)) arr' low (high - 1) \<and> drawn_from (fst (arr, ?s1)) arr' low (high - 1)"
        using "1.prems" inr p2 by (intro "1.IH"(2)[OF inr refl False]) auto
      then show ?thesis unfolding eq by simp
    qed
  qed
qed


lemma partition_spec:
  assumes "0 \<le> low" "low < high" "high < int (length (fst st))"
  shows "case partition low high st of (pidx, (arr', steps')) \<Rightarrow>
     low \<le> pidx \<and> pidx \<le> high \<and>
     (\<forall>p. low \<le> p \<and> p < pidx \<longrightarrow> arr' ! nat p < arr' ! nat pidx) \<and>
     (\<forall>p. pidx < p \<and> p \<le> high \<longrightarrow> arr' ! nat pidx \<le> arr' ! nat p) \<and>
     same_outside (fst st) arr' low high \<and> drawn_from (fst st) arr' low high"
proof -
  let ?pivot = "fst st ! nat high"
  obtain i arr steps where r: "partition_loop high ?pivot (low - 1) low st = (i, (arr, steps))"
    by (metis prod.exhaust)
  have "case partition_loop high ?pivot (low - 1) low st of (i', (arr', steps')) \<Rightarrow>
     low - 1 \<le> i' \<and> i' < high \<and>
     (\<forall>p. low \<le> p \<and> p \<le> i' \<longrightarrow> arr' ! nat p < ?pivot) \<and>
     (\<forall>p. i' < p \<and> p < high \<longrightarrow> ?pivot \<le> arr' ! nat p) \<and>
     same_outside (fst st) arr' low (high - 1) \<and> drawn_from (fst st) arr' low (high - 1)"
    using assms by (intro partition_loop_spec) auto
  then have lp: "low - 1 \<le> i" "i < high"
     "\<forall>p. low \<le> p \<and> p \<le> i \<longrightarrow> arr ! nat p < ?pivot"
     "\<forall>p. i < p \<and> p < high \<longrightarrow> ?pivot \<le> arr ! nat p"
     "same_outside (fst st) arr low (high - 1)" "drawn_from (fst st) arr low (high - 1)"
    unfolding r by simp_all
  let ?pidx = "i + 1"
  let ?a1 = "arr[nat ?pidx := arr ! nat high, nat high := arr ! nat ?pidx]"
  have eq: "partition low high st = (?pidx, (?a1, steps @ [Swap [?pidx, high] ?a1]))"
    by (simp add: partition_def r Let_def)
  have len: "length arr = length (fst st)" using lp(5) by (simp add: same_outside_def)
  have hi: "arr ! nat high = ?pivot"
    using lp(5) assms by (simp add: same_outside_def)
  have rng: "0 \<le> ?pidx" "0 \<le> high" "?pidx < int (length arr)" "high < int (length arr)"
    using assms lp(1,2) len by auto
  have nth: "\<And>p. 0 \<le> p \<Longrightarrow> ?a1 ! nat p =
      (if p = high then arr ! nat ?pidx else if p = ?pidx then arr ! nat high else arr ! nat p)"
    using rng by (intro swap_nth_int) auto
  have pv: "?a1 ! nat ?pidx = ?pivot"
    using nth[of ?pidx] rng hi by simp
  have c1: "\<forall>p. low \<le> p \<and> p < ?pidx \<longrightarrow> ?a1 ! nat p < ?a1 ! nat ?pidx"
  proof (intro allI impI)
    fix p assume p: "low \<le> p \<and> p < ?pidx"
    with assms(1) have "0 \<le> p" by simp
    from nth[OF this] p lp(2,3) show "?a1 ! nat p < ?a1 ! nat ?pidx" unfolding pv by auto
  qed
  have c2: "\<forall>p. ?pidx < p \<and> p \<le> high \<longrightarrow> ?a1 ! nat ?pidx \<le> ?a1 ! nat p"
  proof (intro allI impI)
    fix p assume p: "?pidx < p \<and> p \<le> high"
    with rng have p0: "0 \<le> p" by simp
    show "?a1 ! nat ?pidx \<le> ?a1 ! nat p"
    proof (cases "p = high")
      case True
      with nth[OF p0] p lp(4) show ?thesis unfolding pv by auto
    next
      case False
      with nth[OF p0] p lp(4) show ?thesis unfolding pv by auto
    qed
  qed
  have so0: "same_outside (fst st) arr low high"
    using lp(5) unfolding same_outside_def by auto
  have df0: "drawn_from (fst st) arr low high"
    unfolding drawn_from_def
  proof (intro allI impI)
    fix p assume p: "low \<le> p \<and> p \<le> high"
    show "\<exists>q. low \<le> q \<and> q \<le> high \<and> arr ! nat p = fst st ! nat q"
    proof (cases "p = high")
      case True
      with hi p show ?thesis by (intro exI[of _ high]) simp
    next
      case False
      with p lp(6) obtain q where "low \<le> q" "q \<le> high - 1" "arr ! nat p = fst st ! nat q"
        unfolding drawn_from_def by (metis add_le_cancel_right le_less zle_diff1_eq diff_add_cancel)
      then show ?thesis by (intro exI[of _ q]) simp
    qed
  qed
  have so1: "same_outside arr ?a1 low high"
    using rng assms lp(1,2) by (intro swap_same_outside) auto
  have df1: "drawn_from arr ?a1 low high"
    using rng assms lp(1,2) by (intro swap_drawn_from) auto
  have so: "same_outside (fst st) ?a1 low high"
    by (rule same_outside_trans[OF so0 so1]) simp_all
  have df: "drawn_from (fst st) ?a1 low high"
    by (rule drawn_from_trans[OF df0 df1 so1 assms(1)]) simp_all
  show ?thesis unfolding eq using lp(1,2) c1 c2 so df by simp
qed


lemma snap_inv_length: "snap_inv M st \<Longrightarrow> length (fst st) = size M"
  by (auto simp: snap_inv_def)

lemma partition_loop_snap:
  assumes "snap_inv M st" "- 1 \<le> i" "i < j" "j \<le> high" "high < int (length (fst st))"
  shows "snap_inv M (snd (partition_loop high pivot i j st))"
  using assms
proof (induction high pivot i j st rule: partition_loop.induct)
  case (1 high pivot i j arr steps)
  show ?case
  proof (cases "j < high")
    case False
    then have "partition_loop high pivot i j (arr, steps) = (i, (arr, steps))"
      by (simp add: partition_loop.simps[of high pivot i j])
    with "1.prems"(1) show ?thesis by simp
  next
    case inr: True
    let ?s1 = "steps @ [Compare [j, high] arr]"
    have s1: "snap_inv M (arr, ?s1)"
      using "1.prems"(1) by (rule snap_inv_push_compare)
    show ?thesis
    proof (cases "arr ! nat j < pivot")
      case True
      let ?i1 = "i + 1"
      let ?a1 = "arr[nat ?i1 := arr ! nat j, nat j := arr ! nat ?i1]"
      let ?st1 = "(?a1, ?s1 @ [Swap [?i1, j] ?a1])"
      have eq: "partition_loop high pivot i j (arr, steps) = partition_loop high pivot ?i1 (j + 1) ?st1"
        using inr True by (simp add: partition_loop.simps[of high pivot i j] Let_def)
      have "snap_inv M ?st1"
        using s1 inr "1.prems" by (intro snap_inv_swap) auto
      moreover have "high < int (length (fst ?st1))" using "1.prems" by simp
      ultimately show ?thesis unfolding eq
        using "1.prems"(2,3,4) inr by (intro "1.IH"(1)[OF inr refl True refl refl]) auto
    next
      case False
      have eq: "partition_loop high pivot i j (arr, steps) = partition_loop high pivot i (j + 1) (arr, ?s1)"
        using inr False by (simp add: partition_loop.simps[of high pivot i j] Let_def)
      show ?thesis unfolding eq
        using "1.prems"(2,3,4,5) inr s1 by (intro "1.IH"(2)[OF inr refl False]) auto
    qed
  qed
qed

lemma partition_snap:
  assumes "snap_inv M st" "0 \<le> low" "low < high" "high < int (length (fst st))"
  shows "snap_inv M (snd (partition low high st))"
proof -
  let ?pivot = "fst st ! nat high"
  obtain i arr steps where r: "partition_loop high ?pivot (low - 1) low st = (i, (arr, steps))"
    by (metis prod.exhaust)
  have inv: "snap_inv M (arr, steps)"
    using partition_loop_snap[of M st "low - 1" low high ?pivot] assms r by simp
  have "low - 1 \<le> i" "i < high"
    using partition_loop_lower[of "low - 1" high ?pivot low st]
      partition_loop_bounds[of "low - 1" low high ?pivot st] assms r by simp_all
  moreover have "length arr = length (fst st)"
    using snap_inv_length[OF inv] snap_inv_length[OF assms(1)] by simp
  ultimately have "snap_inv M (arr[nat (i + 1) := arr ! nat high, nat high := arr ! nat (i + 1)],
      steps @ [Swap [i + 1, high] (arr[nat (i + 1) := arr ! nat high, nat high := arr ! nat (i + 1)])])"
    using inv assms by (intro snap_inv_swap) auto
  then show ?thesis by (simp add: partition_def r Let_def)
qed

lemma quickSortHelper_snap:
  assumes "snap_inv M st" "0 \<le> low" "high < int (length (fst st))"
  shows "snap_inv M (quickSortHelper low high st)"
  using assms
proof (induction low high st rule: quickSortHelper.induct)
  case (1 low high st)
  show ?case
  proof (cases "low < high")
    case False
    then show ?thesis using "1.prems"(1) by (simp add: quickSortHelper.simps[of low high])
  next
    case True
    obtain pidx st1 where part: "partition low high st = (pidx, st1)" by (metis prod.exhaust)
    have eq: "quickSortHelper low high st = quickSortHelper (pidx + 1) high (quickSortHelper low (pidx - 1) st1)"
      using True part by (simp add: quickSortHelper.simps[of low high])
    have inv1: "snap_inv M st1"
      using partition_snap[OF "1.prems"(1,2) True "1.prems"(3)] part by simp
    have pib: "low \<le> pidx" "pidx \<le> high"
      using partition_spec[OF "1.prems"(2) True "1.prems"(3)] part by (auto split: prod.splits)
    have len: "length (fst st) = size M" using snap_inv_length[OF "1.prems"(1)] .
    have inv2: "snap_inv M (quickSortHelper low (pidx - 1) st1)"
      using inv1 "1.prems"(2,3) pib snap_inv_length[OF inv1] len
      by (intro "1.IH"(1)[OF True part[symmetric] refl]) auto
    show ?thesis unfolding eq
      using inv2 "1.prems"(2,3) pib snap_inv_length[OF inv2] len
      by (intro "1.IH"(2)[OF True part[symmetric] refl]) auto
  qed
qed

lemma quickSortHelper_spec:
  assumes "0 \<le> low" "high < int (length (fst st))"
  shows "range_sorted (fst (quickSortHelper low high st)) low high
       \<and> same_outside (fst st) (fst (quickSortHelper low high st)) low high
       \<and> drawn_from (fst st) (fst (quickSortHelper low high st)) low high"
  using assms
proof (induction low high st rule: quickSortHelper.induct)
  case (1 low high st)
  show ?case
  proof (cases "low < high")
    case False
    then have eq: "quickSortHelper low high st = st" by (simp add: quickSortHelper.simps[of low high])
    have "range_sorted (fst st) low high"
      unfolding range_sorted_def
    proof (intro allI impI)
      fix p q assume "low \<le> p \<and> p \<le> q \<and> q \<le> high"
      with False have "p = q" by linarith
      then show "fst st ! nat p \<le> fst st ! nat q" by simp
    qed
    then show ?thesis unfolding eq by (simp add: same_outside_refl drawn_from_refl)
  next
    case True
    obtain pidx st1 where part: "partition low high st = (pidx, st1)" by (metis prod.exhaust)
    let ?st2 = "quickSortHelper low (pidx - 1) st1"
    let ?st3 = "quickSortHelper (pidx + 1) high ?st2"
    let ?A = "fst st" and ?A1 = "fst st1" and ?A2 = "fst ?st2" and ?A3 = "fst ?st3"
    have eq: "quickSortHelper low high st = ?st3"
      using True part by (simp add: quickSortHelper.simps[of low high])
    have ps: "low \<le> pidx" "pidx \<le> high"
      "\<forall>p. low \<le> p \<and> p < pidx \<longrightarrow> ?A1 ! nat p < ?A1 ! nat pidx"
      "\<forall>p. pidx < p \<and> p \<le> high \<longrightarrow> ?A1 ! nat pidx \<le> ?A1 ! nat p"
      "same_outside ?A ?A1 low high" "drawn_from ?A ?A1 low high"
      using partition_spec[OF "1.prems"(1) True "1.prems"(2)] part by (auto split: prod.splits)
    have len1: "length ?A1 = length ?A" using ps(5) by (simp add: same_outside_def)
    have ih1: "range_sorted ?A2 low (pidx - 1)" "same_outside ?A1 ?A2 low (pidx - 1)"
      "drawn_from ?A1 ?A2 low (pidx - 1)"
      using "1.IH"(1)[OF True part[symmetric] refl "1.prems"(1)] ps(2) "1.prems"(2) len1 by auto
    have len2: "length ?A2 = length ?A" using ih1(2) len1 by (simp add: same_outside_def)
    have ih2: "range_sorted ?A3 (pidx + 1) high" "same_outside ?A2 ?A3 (pidx + 1) high"
      "drawn_from ?A2 ?A3 (pidx + 1) high"
      using "1.IH"(2)[OF True part[symmetric] refl] ps(1) "1.prems" len2 by auto
    have p0: "0 \<le> pidx" using ps(1) "1.prems"(1) by simp
    have v_pi: "?A3 ! nat pidx = ?A1 ! nat pidx"
      using ih1(2) ih2(2) p0 unfolding same_outside_def by auto
    have v_lo: "?A3 ! nat p < ?A1 ! nat pidx \<and> ?A3 ! nat p = ?A2 ! nat p" if "low \<le> p" "p < pidx" for p
    proof -
      from that "1.prems"(1) have a: "?A3 ! nat p = ?A2 ! nat p"
        using ih2(2) unfolding same_outside_def by auto
      from that ih1(3) obtain q where "low \<le> q" "q \<le> pidx - 1" "?A2 ! nat p = ?A1 ! nat q"
        unfolding drawn_from_def by (metis zle_diff1_eq)
      with ps(3) a show ?thesis by auto
    qed
    have v_hi: "?A1 ! nat pidx \<le> ?A3 ! nat p" if "pidx < p" "p \<le> high" for p
    proof -
      from that ih2(3) obtain q where q: "pidx + 1 \<le> q" "q \<le> high" "?A3 ! nat p = ?A2 ! nat q"
        unfolding drawn_from_def by (metis zless_imp_add1_zle)
      with p0 have "?A2 ! nat q = ?A1 ! nat q"
        using ih1(2) unfolding same_outside_def by auto
      with q ps(4) show ?thesis by auto
    qed
    have rs: "range_sorted ?A3 low high"
      unfolding range_sorted_def
    proof (intro allI impI)
      fix p q assume h: "low \<le> p \<and> p \<le> q \<and> q \<le> high"
      consider "q < pidx" | "pidx < p" | "p < pidx" "q = pidx" | "p < pidx" "pidx < q" | "p = pidx" "q = pidx" | "p = pidx" "pidx < q"
        using h by linarith
      then show "?A3 ! nat p \<le> ?A3 ! nat q"
      proof cases
        case 1
        with h have "?A2 ! nat p \<le> ?A2 ! nat q" using ih1(1) unfolding range_sorted_def by auto
        with v_lo[of p] v_lo[of q] 1 h show ?thesis by auto
      next
        case 2
        with h show ?thesis using ih2(1) unfolding range_sorted_def by auto
      next
        case 3
        with v_lo[of p] v_pi h show ?thesis by auto
      next
        case 4
        with v_lo[of p] v_hi[of q] h show ?thesis by auto
      next
        case 5 then show ?thesis by simp
      next
        case 6
        with v_hi[of q] v_pi h show ?thesis by auto
      qed
    qed
    have so12: "same_outside ?A ?A2 low high"
      by (rule same_outside_trans[OF ps(5) ih1(2)]) (use ps in auto)
    have so: "same_outside ?A ?A3 low high"
      by (rule same_outside_trans[OF so12 ih2(2)]) (use ps in auto)
    have df12: "drawn_from ?A ?A2 low high"
      by (rule drawn_from_trans[OF ps(6) ih1(3) ih1(2) "1.prems"(1)]) (use ps in auto)
    have df: "drawn_from ?A ?A3 low high"
      by (rule drawn_from_trans[OF df12 ih2(3) ih2(2) "1.prems"(1)]) (use ps in auto)
    show ?thesis unfolding eq using rs so df by simp
  qed
qed

lemma range_sorted_all: "range_sorted a 0 (int (length a) - 1) \<Longrightarrow> sorted a"
  unfolding range_sorted_def sorted_iff_nth_mono
proof (intro allI impI)
  fix i j assume h: "\<forall>p q. 0 \<le> p \<and> p \<le> q \<and> q \<le> int (length a) - 1 \<longrightarrow> a ! nat p \<le> a ! nat q"
    and "i \<le> j" "j < length a"
  then have "0 \<le> int i \<and> int i \<le> int j \<and> int j \<le> int (length a) - 1" by auto
  with h have "a ! nat (int i) \<le> a ! nat (int j)" by blast
  then show "a ! i \<le> a ! j" by simp
qed

lemma quickSort_final:
  assumes "quickSort arr \<noteq> []"
  shows "sorted (array (last (quickSort arr)))" "mset (array (last (quickSort arr))) = mset arr"
proof -
  let ?r = "quickSortHelper 0 (int (length arr) - 1) (arr, [])"
  have inv: "snap_inv (mset arr) ?r"
    by (rule quickSortHelper_snap[OF snap_inv_init]) simp_all
  have sp: "range_sorted (fst ?r) 0 (int (length arr) - 1)" "length (fst ?r) = length arr"
    using quickSortHelper_spec[of 0 "int (length arr) - 1" "(arr, [])"]
    by (simp_all add: same_outside_def)
  then have srt: "sorted (fst ?r)" using range_sorted_all[of "fst ?r"] by simp
  from inv assms have last: "array (last (quickSort arr)) = fst ?r"
    by (simp add: snap_inv_def tracked_def quickSort_def)
  from srt last show "sorted (array (last (quickSort arr)))" by simp
  from inv last show "mset (array (last (quickSort arr))) = mset arr"
    by (simp add: snap_inv_def)
qed

lemma quickSort_snapshots: "s \<in> set (quickSort arr) \<Longrightarrow> mset (array s) = mset arr"
  using quickSortHelper_snap[OF snap_inv_init, of 0 "int (length arr) - 1" arr]
  by (simp add: snap_inv_def quickSort_def)


subsection \<open>mergeSort sorts\<close>

text \<open>The list that the three loops of \<^verbatim>\<open>merge\<close> write, one element per iteration.\<close>

fun merged :: "int list \<Rightarrow> int list \<Rightarrow> int list" where
  "merged [] ys = ys"
| "merged xs [] = xs"
| "merged (x # xs) (y # ys) =
     (if x \<le> y then x # merged xs (y # ys) else y # merged (x # xs) ys)"

lemma mset_merged: "mset (merged xs ys) = mset xs + mset ys"
  by (induction xs ys rule: merged.induct) auto

lemma set_merged: "set (merged xs ys) = set xs \<union> set ys"
  by (induction xs ys rule: merged.induct) auto

lemma sorted_merged: "sorted xs \<Longrightarrow> sorted ys \<Longrightarrow> sorted (merged xs ys)"
  by (induction xs ys rule: merged.induct) (auto simp: set_merged)

lemma length_merged: "length (merged xs ys) = length xs + length ys"
  by (induction xs ys rule: merged.induct) auto

lemma merged_Nil2: "merged xs [] = xs"
  by (cases xs) auto

lemma write_next:
  assumes "n < length xs"
  shows "take (Suc n) (xs[n := v]) = take n xs @ [v]" "m > n \<Longrightarrow> drop m (xs[n := v]) = drop m xs"
  using assms by (simp_all add: take_Suc_conv_app_nth)

lemma merge_rest_arr:
  assumes "0 \<le> k" "nat k + (length src - i) \<le> length (fst st)"
  shows "fst (snd (merge_rest src i k st)) =
           take (nat k) (fst st) @ drop i src @ drop (nat k + (length src - i)) (fst st)"
  using assms
proof (induction src i k st rule: merge_rest.induct)
  case (1 src i k arr steps)
  show ?case
  proof (cases "i < length src")
    case False
    then show ?thesis by (simp add: merge_rest.simps[of src i k])
  next
    case True
    let ?a1 = "arr[nat k := src ! i]"
    let ?st1 = "(?a1, steps @ [Swap [k] ?a1])"
    have eq: "merge_rest src i k (arr, steps) = merge_rest src (i + 1) (k + 1) ?st1"
      using True by (simp add: merge_rest.simps[of src i k] Let_def)
    have kb: "nat k < length arr" using "1.prems" True by simp
    have nk: "nat (k + 1) = Suc (nat k)" using "1.prems"(1) by simp
    have "fst (snd (merge_rest src (i + 1) (k + 1) ?st1)) =
        take (nat (k + 1)) (fst ?st1) @ drop (i + 1) src @ drop (nat (k + 1) + (length src - (i + 1))) (fst ?st1)"
      using "1.prems" True by (intro "1.IH"[OF True refl]) auto
    also have "\<dots> = (take (nat k) arr @ [src ! i]) @ drop (Suc i) src @ drop (nat k + (length src - i)) arr"
      using write_next[OF kb, where v = "src ! i"] True unfolding nk
      by (simp add: Suc_diff_Suc)
    also have "\<dots> = take (nat k) arr @ drop i src @ drop (nat k + (length src - i)) arr"
      using Cons_nth_drop_Suc[OF True] by simp
    finally show ?thesis unfolding eq by simp
  qed
qed

lemma merge_rest_k: "fst (merge_rest src i k st) = k + int (length src - i)"
proof (induction src i k st rule: merge_rest.induct)
  case (1 src i k arr steps)
  then show ?case by (simp add: merge_rest.simps[of src i k] Let_def)
qed

lemma merge_rest_tracked: "tracked st \<Longrightarrow> tracked (snd (merge_rest src i k st))"
proof (induction src i k st rule: merge_rest.induct)
  case (1 src i k arr steps)
  show ?case
  proof (cases "i < length src")
    case False
    with "1.prems" show ?thesis by (simp add: merge_rest.simps[of src i k])
  next
    case True
    have "tracked (arr[nat k := src ! i], steps @ [Swap [k] (arr[nat k := src ! i])])"
      by (simp add: tracked_def)
    from "1.IH"[OF True refl this] True show ?thesis
      by (simp add: merge_rest.simps[of src i k] Let_def)
  qed
qed

definition merge_finish :: "int list \<Rightarrow> int list \<Rightarrow> nat \<times> nat \<times> int \<times> sstate \<Rightarrow> sstate" where
  "merge_finish leftArr rightArr r =
     (case r of (i, j, k, st1) \<Rightarrow>
        let (k1, st2) = merge_rest leftArr i k st1;
            (k2, st3) = merge_rest rightArr j k1 st2
        in st3)"

lemma merge_finish_exit:
  assumes "\<not> (i < length L \<and> j < length R)" "i \<le> length L" "j \<le> length R" "0 \<le> k"
    "nat k + (length L - i) + (length R - j) \<le> length (fst st)"
  shows "fst (merge_finish L R (i, j, k, st)) =
     take (nat k) (fst st) @ merged (drop i L) (drop j R) @
       drop (nat k + (length L - i) + (length R - j)) (fst st)"
proof -
  obtain k1 st2 where r1: "merge_rest L i k st = (k1, st2)" by (metis prod.exhaust)
  have k1: "k1 = k + int (length L - i)" using merge_rest_k[of L i k st] r1 by simp
  have a2: "fst st2 = take (nat k) (fst st) @ drop i L @ drop (nat k + (length L - i)) (fst st)"
    using merge_rest_arr[of k L i st] assms r1 by simp
  have len2: "length (fst st2) = length (fst st)" using a2 assms by simp
  have nk1: "nat k1 = nat k + (length L - i)" using k1 assms(4) by simp
  have a3: "fst (snd (merge_rest R j k1 st2)) =
      take (nat k1) (fst st2) @ drop j R @ drop (nat k1 + (length R - j)) (fst st2)"
    using assms k1 len2 nk1 by (intro merge_rest_arr) auto
  have fin: "merge_finish L R (i, j, k, st) = snd (merge_rest R j k1 st2)"
    by (simp add: merge_finish_def r1 split: prod.splits)
  show ?thesis
  proof (cases "i < length L")
    case True
    with assms have j: "j = length R" by simp
    show ?thesis unfolding fin a3 nk1 a2 using j assms True
      by (simp add: merged_Nil2)
  next
    case False
    with assms have i: "i = length L" by simp
    show ?thesis unfolding fin a3 nk1 a2 using i assms
      by simp
  qed
qed


lemma merge_both_arr:
  assumes "i \<le> length L" "j \<le> length R" "0 \<le> k"
    "nat k + (length L - i) + (length R - j) \<le> length (fst st)"
  shows "fst (merge_finish L R (merge_both L R left mid i j k st)) =
     take (nat k) (fst st) @ merged (drop i L) (drop j R) @
       drop (nat k + (length L - i) + (length R - j)) (fst st)"
  using assms
proof (induction L R left mid i j k st rule: merge_both.induct)
  case (1 L R left mid i j k arr steps)
  show ?case
  proof (cases "i < length L \<and> j < length R")
    case False
    then have "merge_both L R left mid i j k (arr, steps) = (i, j, k, (arr, steps))"
      by (subst merge_both.simps) auto
    then show ?thesis using merge_finish_exit[OF False "1.prems"] by simp
  next
    case True
    let ?s1 = "steps @ [Compare [left + int i, mid + 1 + int j] arr]"
    have kb: "nat k < length arr" using "1.prems"(4) True by (simp del: diff_diff_left) arith
    have nk: "nat (k + 1) = Suc (nat k)" using "1.prems"(3) by simp
    have dl: "drop i L = L ! i # drop (i + 1) L" and dr: "drop j R = R ! j # drop (j + 1) R"
      using True by (simp_all add: Cons_nth_drop_Suc)
    show ?thesis
    proof (cases "L ! i \<le> R ! j")
      case le: True
      let ?a1 = "arr[nat k := L ! i]"
      let ?st1 = "(?a1, ?s1 @ [Swap [k] ?a1])"
      have eq: "merge_both L R left mid i j k (arr, steps) = merge_both L R left mid (i + 1) j (k + 1) ?st1"
        using True le by (simp add: merge_both.simps[of L R left mid i j k] Let_def)
      have "fst (merge_finish L R (merge_both L R left mid (i + 1) j (k + 1) ?st1)) =
          take (nat (k + 1)) (fst ?st1) @ merged (drop (i + 1) L) (drop j R) @
            drop (nat (k + 1) + (length L - (i + 1)) + (length R - j)) (fst ?st1)"
        using "1.prems" True by (intro "1.IH"(1)[OF True refl le refl]) auto
      also have "\<dots> = (take (nat k) arr @ [L ! i]) @ merged (drop (i + 1) L) (drop j R) @
            drop (nat k + (length L - i) + (length R - j)) arr"
      proof -
        have idx: "Suc (nat k) + (length L - (i + 1)) + (length R - j) =
            nat k + (length L - i) + (length R - j)" using True by arith
        have "nat k < nat k + (length L - i) + (length R - j)" using True by arith
        from write_next(2)[OF kb this] write_next(1)[OF kb]
        show ?thesis by (simp only: fst_conv nk idx)
      qed
      also have "\<dots> = take (nat k) arr @ merged (drop i L) (drop j R) @
            drop (nat k + (length L - i) + (length R - j)) arr"
      proof -
        have "merged (drop i L) (drop j R) = merged (L ! i # drop (i + 1) L) (R ! j # drop (j + 1) R)"
          using dl dr by simp
        also have "\<dots> = L ! i # merged (drop (i + 1) L) (R ! j # drop (j + 1) R)"
          using le by simp
        finally have "merged (drop i L) (drop j R) = L ! i # merged (drop (i + 1) L) (drop j R)"
          using dr by simp
        then show ?thesis by simp
      qed
      finally show ?thesis unfolding eq by simp
    next
      case gt: False
      let ?a1 = "arr[nat k := R ! j]"
      let ?st1 = "(?a1, ?s1 @ [Swap [k] ?a1])"
      have eq: "merge_both L R left mid i j k (arr, steps) = merge_both L R left mid i (j + 1) (k + 1) ?st1"
        using True gt by (simp add: merge_both.simps[of L R left mid i j k] Let_def)
      have "fst (merge_finish L R (merge_both L R left mid i (j + 1) (k + 1) ?st1)) =
          take (nat (k + 1)) (fst ?st1) @ merged (drop i L) (drop (j + 1) R) @
            drop (nat (k + 1) + (length L - i) + (length R - (j + 1))) (fst ?st1)"
        using "1.prems" True by (intro "1.IH"(2)[OF True refl gt refl]) auto
      also have "\<dots> = (take (nat k) arr @ [R ! j]) @ merged (drop i L) (drop (j + 1) R) @
            drop (nat k + (length L - i) + (length R - j)) arr"
      proof -
        have idx: "Suc (nat k) + (length L - i) + (length R - (j + 1)) =
            nat k + (length L - i) + (length R - j)" using True by arith
        have "nat k < nat k + (length L - i) + (length R - j)" using True by arith
        from write_next(2)[OF kb this] write_next(1)[OF kb]
        show ?thesis by (simp only: fst_conv nk idx)
      qed
      also have "\<dots> = take (nat k) arr @ merged (drop i L) (drop j R) @
            drop (nat k + (length L - i) + (length R - j)) arr"
      proof -
        have "merged (drop i L) (drop j R) = merged (L ! i # drop (i + 1) L) (R ! j # drop (j + 1) R)"
          using dl dr by simp
        also have "\<dots> = R ! j # merged (L ! i # drop (i + 1) L) (drop (j + 1) R)"
          using gt by simp
        finally have "merged (drop i L) (drop j R) = R ! j # merged (drop i L) (drop (j + 1) R)"
          using dl by simp
        then show ?thesis by simp
      qed
      finally show ?thesis unfolding eq by simp
    qed
  qed
qed

lemma merge_both_tracked:
  "tracked st \<Longrightarrow> tracked (snd (snd (snd (merge_both L R left mid i j k st))))"
proof (induction L R left mid i j k st rule: merge_both.induct)
  case (1 L R left mid i j k arr steps)
  show ?case
  proof (cases "i < length L \<and> j < length R")
    case False
    then have "merge_both L R left mid i j k (arr, steps) = (i, j, k, (arr, steps))"
      by (subst merge_both.simps) auto
    with "1.prems" show ?thesis by simp
  next
    case True
    let ?s1 = "steps @ [Compare [left + int i, mid + 1 + int j] arr]"
    show ?thesis
    proof (cases "L ! i \<le> R ! j")
      case le: True
      have "tracked (arr[nat k := L ! i], ?s1 @ [Swap [k] (arr[nat k := L ! i])])"
        by (simp add: tracked_def)
      from "1.IH"(1)[OF True refl le refl this] True le show ?thesis
        by (simp add: merge_both.simps[of L R left mid i j k] Let_def)
    next
      case gt: False
      have "tracked (arr[nat k := R ! j], ?s1 @ [Swap [k] (arr[nat k := R ! j])])"
        by (simp add: tracked_def)
      from "1.IH"(2)[OF True refl gt refl this] True gt show ?thesis
        by (simp add: merge_both.simps[of L R left mid i j k] Let_def)
    qed
  qed
qed

lemma merge_eq_finish:
  "merge left mid right st =
     merge_finish (slice (fst st) left (mid + 1)) (slice (fst st) (mid + 1) (right + 1))
       (merge_both (slice (fst st) left (mid + 1)) (slice (fst st) (mid + 1) (right + 1))
          left mid 0 0 left st)"
  by (simp add: merge_def merge_finish_def Let_def split: prod.splits)

lemma merge_tracked: "tracked st \<Longrightarrow> tracked (merge left mid right st)"
proof -
  assume t: "tracked st"
  let ?L = "slice (fst st) left (mid + 1)" and ?R = "slice (fst st) (mid + 1) (right + 1)"
  obtain i j k st1 where r: "merge_both ?L ?R left mid 0 0 left st = (i, j, k, st1)"
    by (metis prod.exhaust)
  obtain k1 st2 where r1: "merge_rest ?L i k st1 = (k1, st2)" by (metis prod.exhaust)
  obtain k2 st3 where r2: "merge_rest ?R j k1 st2 = (k2, st3)" by (metis prod.exhaust)
  have "tracked st1" using merge_both_tracked[OF t, of ?L ?R left mid 0 0 left] r by simp
  then have "tracked st2" using merge_rest_tracked[of st1 ?L i k] r1 by simp
  then have "tracked st3" using merge_rest_tracked[of st2 ?R j k1] r2 by simp
  then show ?thesis
    by (simp add: merge_eq_finish r merge_finish_def r1 r2)
qed

definition segn :: "int list \<Rightarrow> nat \<Rightarrow> nat \<Rightarrow> int list" where
  "segn a l h = take (h - l) (drop l a)"

lemma slice_segn:
  "0 \<le> s \<Longrightarrow> s \<le> e \<Longrightarrow> e \<le> int (length xs) \<Longrightarrow> slice xs s e = segn xs (nat s) (nat e)"
  by (simp add: slice_def segn_def Let_def nat_diff_distrib)

lemma length_segn: "l \<le> h \<Longrightarrow> h \<le> length a \<Longrightarrow> length (segn a l h) = h - l"
  by (simp add: segn_def)

lemma merge_arr:
  assumes "0 \<le> left" "left \<le> mid" "mid < right" "right < int (length (fst st))"
  shows "fst (merge left mid right st) =
     take (nat left) (fst st) @
     merged (segn (fst st) (nat left) (nat (mid + 1))) (segn (fst st) (nat (mid + 1)) (nat (right + 1))) @
     drop (nat (right + 1)) (fst st)"
proof -
  let ?A = "fst st"
  let ?L = "segn ?A (nat left) (nat (mid + 1))" and ?R = "segn ?A (nat (mid + 1)) (nat (right + 1))"
  have sl: "slice ?A left (mid + 1) = ?L" "slice ?A (mid + 1) (right + 1) = ?R"
    using assms by (simp_all add: slice_segn)
  have lL: "length ?L = nat (mid + 1) - nat left" and lR: "length ?R = nat (right + 1) - nat (mid + 1)"
    using assms by (simp_all add: length_segn)
  have tot: "nat left + length ?L + length ?R = nat (right + 1)"
    unfolding lL lR using assms by simp
  have "fst (merge_finish ?L ?R (merge_both ?L ?R left mid 0 0 left st)) =
     take (nat left) ?A @ merged (drop 0 ?L) (drop 0 ?R) @
       drop (nat left + (length ?L - 0) + (length ?R - 0)) ?A"
  proof (rule merge_both_arr)
    show "nat left + (length ?L - 0) + (length ?R - 0) \<le> length ?A"
      using tot assms by simp
  qed (use assms in simp_all)
  then show ?thesis unfolding merge_eq_finish sl using tot by simp
qed


lemma segn_split: "l \<le> m \<Longrightarrow> m \<le> h \<Longrightarrow> segn a l h = segn a l m @ segn a m h"
proof -
  assume lm: "l \<le> m" and mh: "m \<le> h"
  then have "h - l = (m - l) + (h - m)" by simp
  then have "take (h - l) (drop l a) = take (m - l) (drop l a) @ take (h - m) (drop (m - l) (drop l a))"
    by (simp only: take_add)
  with lm show ?thesis by (simp add: segn_def)
qed

lemma segn_replaced:
  assumes "A' = take l A @ X @ drop h A" "length X = h - l" "l \<le> h" "h \<le> length A"
  shows "length A' = length A" "take l A' = take l A" "drop h A' = drop h A" "segn A' l h = X"
  using assms by (simp_all add: segn_def)

lemma segn_left_kept:
  assumes "take m A' = take m A" "l \<le> m"
  shows "segn A' l m = segn A l m" "take l A' = take l A"
proof -
  have "segn A' l m = drop l (take m A')" by (simp add: segn_def drop_take)
  also have "\<dots> = drop l (take m A)" using assms by simp
  finally show "segn A' l m = segn A l m" by (simp add: segn_def drop_take)
  have "take l A' = take l (take m A')" using assms(2) by (simp add: min_def)
  also have "\<dots> = take l (take m A)" using assms by simp
  finally show "take l A' = take l A" using assms(2) by (simp add: min_def)
qed

lemma segn_right_kept:
  assumes "drop m A' = drop m A" "m \<le> h"
  shows "segn A' m h' = segn A m h'" "drop h A' = drop h A"
proof -
  show "segn A' m h' = segn A m h'" using assms by (simp add: segn_def)
  have "drop h A' = drop (h - m) (drop m A')" using assms(2) by simp
  also have "\<dots> = drop (h - m) (drop m A)" using assms by simp
  finally show "drop h A' = drop h A" using assms(2) by simp
qed

definition sorts_segment :: "int list \<Rightarrow> int list \<Rightarrow> nat \<Rightarrow> nat \<Rightarrow> bool" where
  "sorts_segment A A' l h \<longleftrightarrow>
     length A' = length A \<and> take l A' = take l A \<and> drop h A' = drop h A \<and>
     sorted (segn A' l h) \<and> mset (segn A' l h) = mset (segn A l h)"

lemma mergeSortHelper_spec:
  assumes "0 \<le> left" "right < int (length (fst st))"
  shows "sorts_segment (fst st) (fst (mergeSortHelper left right st)) (nat left) (nat (right + 1))"
  using assms
proof (induction left right st rule: mergeSortHelper.induct)
  case (1 left right st)
  show ?case
  proof (cases "left < right")
    case False
    then have eq: "mergeSortHelper left right st = st"
      by (simp add: mergeSortHelper.simps[of left right])
    have "length (segn (fst st) (nat left) (nat (right + 1))) \<le> 1"
      using False by (simp add: segn_def)
    then have "sorted (segn (fst st) (nat left) (nat (right + 1)))" by (rule sorted01)
    then show ?thesis unfolding eq by (simp add: sorts_segment_def)
  next
    case True
    define mid where "mid = (left + right) div 2"
    have mb: "left \<le> mid" "mid < right" using True unfolding mid_def by auto
    let ?st1 = "mergeSortHelper left mid st"
    let ?st2 = "mergeSortHelper (mid + 1) right ?st1"
    let ?A = "fst st" and ?A1 = "fst ?st1" and ?A2 = "fst ?st2" and ?A3 = "fst (merge left mid right ?st2)"
    let ?l = "nat left" and ?m = "nat (mid + 1)" and ?h = "nat (right + 1)"
    have nb: "?l \<le> ?m" "?m \<le> ?h" "?h \<le> length ?A" using mb "1.prems" by auto
    have eq: "mergeSortHelper left right st = merge left mid right ?st2"
      using True by (simp add: mergeSortHelper.simps[of left right] mid_def Let_def)
    have ih1: "sorts_segment ?A ?A1 ?l ?m"
      using "1.prems" mb by (intro "1.IH"(1)[OF True mid_def]) auto
    have len1: "length ?A1 = length ?A" using ih1 by (simp add: sorts_segment_def)
    have ih2: "sorts_segment ?A1 ?A2 ?m ?h"
      using "1.prems" mb len1 by (intro "1.IH"(2)[OF True mid_def]) auto
    have len2: "length ?A2 = length ?A" using ih2 len1 by (simp add: sorts_segment_def)
    have a3: "?A3 = take ?l ?A2 @ merged (segn ?A2 ?l ?m) (segn ?A2 ?m ?h) @ drop ?h ?A2"
      using merge_arr[of left mid right ?st2] "1.prems" mb len2 by simp
    have lenX: "length (merged (segn ?A2 ?l ?m) (segn ?A2 ?m ?h)) = ?h - ?l"
      using nb len2 by (simp add: length_merged length_segn)
    note r3 = segn_replaced[OF a3 lenX] 
    have tk2: "take ?m ?A2 = take ?m ?A1" "drop ?h ?A2 = drop ?h ?A1"
      using ih2 by (simp_all add: sorts_segment_def)
    have tk1: "take ?l ?A1 = take ?l ?A" "drop ?m ?A1 = drop ?m ?A"
      using ih1 by (simp_all add: sorts_segment_def)
    have s2l: "segn ?A2 ?l ?m = segn ?A1 ?l ?m" and t2l: "take ?l ?A2 = take ?l ?A1"
      using segn_left_kept[OF tk2(1) nb(1)] by simp_all
    have s1r: "segn ?A1 ?m ?h = segn ?A ?m ?h" and d1h: "drop ?h ?A1 = drop ?h ?A"
      using segn_right_kept[OF tk1(2) nb(2)] by simp_all
    have srt: "sorted (merged (segn ?A2 ?l ?m) (segn ?A2 ?m ?h))"
      using ih1 ih2 s2l by (intro sorted_merged) (simp_all add: sorts_segment_def)
    have ms: "mset (merged (segn ?A2 ?l ?m) (segn ?A2 ?m ?h)) = mset (segn ?A ?l ?h)"
      using ih1 ih2 s2l s1r segn_split[OF nb(1,2), of ?A]
      by (simp add: mset_merged sorts_segment_def)
    show ?thesis unfolding eq sorts_segment_def
      using r3[OF _ ] nb len2 srt ms t2l tk1 tk2 d1h by simp
  qed
qed


lemma mergeSortHelper_tracked: "tracked st \<Longrightarrow> tracked (mergeSortHelper left right st)"
proof (induction left right st rule: mergeSortHelper.induct)
  case (1 left right st)
  show ?case
  proof (cases "left < right")
    case False
    with "1.prems" show ?thesis by (simp add: mergeSortHelper.simps[of left right])
  next
    case True
    from "1.IH"(2)[OF True refl "1.IH"(1)[OF True refl "1.prems"]] True show ?thesis
      by (simp add: mergeSortHelper.simps[of left right] Let_def merge_tracked)
  qed
qed

lemma mergeSort_final:
  assumes "mergeSort arr \<noteq> []"
  shows "sorted (array (last (mergeSort arr)))" "mset (array (last (mergeSort arr))) = mset arr"
proof -
  let ?r = "mergeSortHelper 0 (int (length arr) - 1) (arr, [])"
  have "tracked ?r" by (rule mergeSortHelper_tracked) (simp add: tracked_def)
  with assms have last: "array (last (mergeSort arr)) = fst ?r"
    by (simp add: tracked_def mergeSort_def)
  have "sorts_segment arr (fst ?r) 0 (length arr)"
    using mergeSortHelper_spec[of 0 "int (length arr) - 1" "(arr, [])"] by simp
  then have len: "length (fst ?r) = length arr"
    and seg: "sorted (segn (fst ?r) 0 (length arr))"
      "mset (segn (fst ?r) 0 (length arr)) = mset (segn arr 0 (length arr))"
    by (simp_all add: sorts_segment_def)
  have whole: "segn arr 0 (length arr) = arr" by (simp add: segn_def)
  have "segn (fst ?r) 0 (length arr) = fst ?r" using len by (simp add: segn_def)
  with seg whole have "sorted (fst ?r)" "mset (fst ?r) = mset arr" by simp_all
  with last show "sorted (array (last (mergeSort arr)))"
    "mset (array (last (mergeSort arr))) = mset arr" by simp_all
qed


subsection \<open>Counting the comparisons of bubbleSort\<close>

lemma bubble_inner_compares:
  "length (filter is_compare (snd (bubble_inner n i j st))) =
     length (filter is_compare (snd st)) + (n - i - 1 - j)"
proof (induction n i j st rule: bubble_inner.induct)
  case (1 n i j arr steps)
  show ?case
  proof (cases "j < n - i - 1")
    case False
    then show ?thesis by (simp add: bubble_inner.simps[of n i j])
  next
    case inr: True
    show ?thesis
    proof (cases "arr ! j > arr ! (j + 1)")
      case True
      with inr "1.IH"(1)[OF inr refl True refl] show ?thesis
        by (simp add: bubble_inner.simps[of n i j] Let_def)
    next
      case False
      with inr "1.IH"(2)[OF inr refl False] show ?thesis
        by (simp add: bubble_inner.simps[of n i j] Let_def)
    qed
  qed
qed

lemma bubble_outer_compares:
  "length (filter is_compare (snd (bubble_outer n i st))) =
     length (filter is_compare (snd st)) + (\<Sum>k = i..<n. n - k - 1)"
proof (induction n i st rule: bubble_outer.induct)
  case (1 n i arr steps)
  show ?case
  proof (cases "i < n")
    case False
    then show ?thesis by (simp add: bubble_outer.simps[of n i])
  next
    case True
    obtain a1 s1 where inner: "bubble_inner n i 0 (arr, steps) = (a1, s1)"
      by (metis prod.exhaust)
    have c1: "length (filter is_compare s1) = length (filter is_compare steps) + (n - i - 1)"
      using bubble_inner_compares[of n i 0 "(arr, steps)"] inner by simp
    have split: "(\<Sum>k = i..<n. n - k - 1) = (n - i - 1) + (\<Sum>k = i + 1..<n. n - k - 1)"
      using True by (simp add: sum.atLeast_Suc_lessThan)
    from "1.IH"[OF True inner[symmetric] refl] c1 True inner show ?thesis
      unfolding split by (simp add: bubble_outer.simps[of n i])
  qed
qed

lemma sum_passes: "(\<Sum>k = 0..<n. n - k - 1) = n * (n - 1) div (2::nat)"
proof -
  have "(\<Sum>k = 0..<n. n - k - 1) = (\<Sum>k = 0..<n. k)"
    by (rule sum.reindex_bij_witness[where i = "\<lambda>k. n - k - 1" and j = "\<lambda>k. n - k - 1"]) auto
  also have "\<dots> = n * (n - 1) div 2"
    by (simp add: Sum_Ico_nat)
  finally show ?thesis .
qed

text \<open>
  C8. For every input array of length \<open>n\<close>, \<open>bubbleSort\<close> emits exactly \<open>n(n-1)/2\<close>
  \<open>compare\<close> steps, whatever the values are; the number is the sum over the passes
  \<open>i\<close> of \<open>n - i - 1\<close>.
\<close>

theorem bubbleSort_compare_count:
  "length (filter is_compare (bubbleSort arr)) = length arr * (length arr - 1) div 2
   \<and> length (filter is_compare (bubbleSort arr)) = (\<Sum>i = 0..<length arr. length arr - i - 1)"
proof -
  have "length (filter is_compare (bubbleSort arr)) = (\<Sum>i = 0..<length arr. length arr - i - 1)"
    using bubble_outer_compares[of "length arr" 0 "(arr, [])"] by (simp add: bubbleSort_def)
  then show ?thesis by (simp only: sum_passes)
qed

subsection \<open>The three sorts together\<close>

text \<open>
  The dispatch on the algorithm tag, as \<^verbatim>\<open>handleSort\<close> of the sorting component does it
  (\<^verbatim>\<open>if (algorithm === 'bubble') newSteps = bubbleSort(newArray) else ...\<close>).
\<close>

datatype algorithm = Bubble | Merge | Quick

fun handleSort :: "algorithm \<Rightarrow> int list \<Rightarrow> sstep list" where
  "handleSort Bubble array0 = bubbleSort array0"
| "handleSort Merge array0 = mergeSort array0"
| "handleSort Quick array0 = quickSort array0"

text \<open>
  C1, as stated, fails for merge sort: \<^verbatim>\<open>merge\<close> copies both halves out and writes them back
  one element at a time, so between two writes the working array holds a value twice. On
  \<open>[2, 1]\<close> the first \<open>swap\<close> step carries \<open>[1, 1]\<close>, which is not a permutation of
  the input.
\<close>

theorem mergeSort_snapshot_counterexample:
  "Swap [0] [1, 1] \<in> set (handleSort Merge [2, 1])
   \<and> mset (array (Swap [0] [1, 1])) \<noteq> mset [2, 1]"
proof
  show "Swap [0] [1, 1] \<in> set (handleSort Merge [2, 1])" by code_simp
  show "mset (array (Swap [0] [1, 1])) \<noteq> mset [2, 1]" by simp
qed

text \<open>
  C1 (amended). For every input array \<open>A\<close> and every algorithm tag, if the returned step
  sequence is not empty then the array snapshot of its final step is a sorted permutation
  of \<open>A\<close>; for bubble sort and quick sort the multiset of values of \<open>A\<close> is preserved in
  the snapshot of every step.
\<close>

theorem sort_final_sorted_permutation:
  "(handleSort alg A \<noteq> [] \<longrightarrow>
      sorted (array (last (handleSort alg A))) \<and> mset (array (last (handleSort alg A))) = mset A)
   \<and> (alg \<noteq> Merge \<longrightarrow> (\<forall>s \<in> set (handleSort alg A). mset (array s) = mset A))"
proof (cases alg)
  case Bubble
  then show ?thesis using bubbleSort_final[of A] bubbleSort_snapshots[of _ A] by auto
next
  case Merge
  then show ?thesis using mergeSort_final[of A] by auto
next
  case Quick
  then show ?thesis using quickSort_final[of A] quickSort_snapshots[of _ A] by auto
qed

text \<open>Witness for C1 (amended): quick sort on \<open>[3, 1, 2]\<close>.\<close>

theorem sort_final_sorted_permutation_witness:
  "handleSort Quick [3, 1, 2] \<noteq> []
   \<and> sorted (array (last (handleSort Quick [3, 1, 2])))
   \<and> mset (array (last (handleSort Quick [3, 1, 2]))) = mset [3, 1, 2]
   \<and> Quick \<noteq> Merge
   \<and> list_all (\<lambda>s. mset (array s) = mset [3, 1, 2]) (handleSort Quick [3, 1, 2])"
proof -
  have ne: "handleSort Quick [3, 1, 2] \<noteq> []" by code_simp
  with sort_final_sorted_permutation[of Quick "[3, 1, 2]"] show ?thesis
    by (simp add: list_all_iff)
qed

text \<open>
  C3. The claim asks the \<open>sorted\<close> step of pass \<open>i\<close> to carry the last \<open>i + 1\<close>
  positions. The source builds the list with \<^verbatim>\<open>length: n - i\<close>, so pass \<open>i\<close> carries
  the positions \<open>n - 1\<close> down to \<open>i\<close>: on \<open>[3, 1, 2]\<close> the first pass marks all three
  positions although only position 2 is settled, and the last pass marks one.
\<close>

theorem bubbleSort_sorted_indices_example:
  "map indices (filter is_sorted_step (bubbleSort [3, 1, 2])) = [[2, 1, 0], [2, 1], [2]]"
  by code_simp

section \<open>Graph-traversal engine (src/utils/graphAlgorithms.js)\<close>

text \<open>
  A graph is \<^verbatim>\<open>{ nodes, edges }\<close>. The engine reads \<^verbatim>\<open>graph.nodes.length\<close> and the pairs
  \<^verbatim>\<open>[u, v]\<close> of \<^verbatim>\<open>graph.edges\<close> only, so a node is kept as its id. A JavaScript \<^verbatim>\<open>Set\<close> is
  kept as the list of its elements in insertion order; \<^verbatim>\<open>add\<close> appends an element that is
  not yet there.
\<close>

record graph =
  nodes :: "nat list"
  edges :: "(nat \<times> nat) list"

datatype error = TypeError

text \<open>
  The steps of the four functions. A \<^verbatim>\<open>visit\<close> step has three shapes in the source:
  \<^verbatim>\<open>{node, visited, visitOrder}\<close> (dfs, graphBFS), \<^verbatim>\<open>{node, visited, result}\<close>
  (topologicalSort) and \<^verbatim>\<open>{node, state: 'visiting', hasCycle: false}\<close> (detectCycle); a
  \<^verbatim>\<open>finish\<close> step has two.
\<close>

datatype gstep =
    Visit (step_node: nat) (step_visited: "nat list") (step_visitOrder: "nat list")
  | VisitT (step_node: nat) (step_visited: "nat list") (step_result: "nat list")
  | Finish (step_node: nat) (step_visited: "nat list") (step_result: "nat list")
  | Visiting (step_node: nat) (step_hasCycle: bool)
  | Cycle (step_node: nat) (step_hasCycle: bool)
  | FinishC (step_node: nat) (step_hasCycle: bool)

definition set_add :: "'a \<Rightarrow> 'a list \<Rightarrow> 'a list" where
  "set_add x xs = (if x \<in> set xs then xs else xs @ [x])"





subsection \<open>dfs\<close>




subsection \<open>graphBFS\<close>






subsection \<open>The directed adjacency list of topologicalSort and detectCycle\<close>

fun add_directed :: "nat list list \<Rightarrow> (nat \<times> nat) list \<Rightarrow> error + nat list list" where
  "add_directed adj [] = Inr adj"
| "add_directed adj ((u, v) # es) =
     (if u < length adj then add_directed (adj[u := adj ! u @ [v]]) es else Inl TypeError)"

definition directedAdjacency :: "graph \<Rightarrow> error + nat list list" where
  "directedAdjacency graph = add_directed (replicate (length (nodes graph)) []) (edges graph)"


subsection \<open>topologicalSort\<close>

text \<open>
  The state that the local function \<^verbatim>\<open>dfsHelper\<close> of \<^verbatim>\<open>topologicalSort\<close> mutates:
  \<^verbatim>\<open>visited\<close>, \<^verbatim>\<open>result\<close> and \<^verbatim>\<open>steps\<close>. \<^verbatim>\<open>result.unshift(node)\<close> puts the node in front.
  The loop \<^verbatim>\<open>for (const neighbor of adj[node])\<close> throws a TypeError when \<^verbatim>\<open>adj[node]\<close> is
  undefined.
\<close>

type_synonym tstate = "nat list \<times> nat list \<times> gstep list"

function topo_dfsHelper :: "nat list list \<Rightarrow> nat \<Rightarrow> tstate \<Rightarrow> error + tstate"
  and topo_neighbors :: "nat list list \<Rightarrow> nat list \<Rightarrow> tstate \<Rightarrow> error + tstate" where
  "topo_dfsHelper adj node (visited, result, steps) =
     (let visited1 = set_add node visited;
          steps1 = steps @ [VisitT node visited1 result]
      in if node < length adj then
           (case topo_neighbors adj (adj ! node) (visited1, result, steps1) of
              Inl e \<Rightarrow> Inl e
            | Inr (visited2, result2, steps2) \<Rightarrow>
                let result3 = node # result2 in
                Inr (visited2, result3, steps2 @ [Finish node visited2 result3]))
         else Inl TypeError)"
| "topo_neighbors adj [] st = Inr st"
| "topo_neighbors adj (neighbor # rest) (visited, result, steps) =
     (if neighbor \<notin> set visited then
        (case topo_dfsHelper adj neighbor (visited, result, steps) of
           Inl e \<Rightarrow> Inl e
         | Inr st1 \<Rightarrow> topo_neighbors adj rest st1)
      else topo_neighbors adj rest (visited, result, steps))"
  by pat_completeness auto

lemma topo_visited_mono_dom:
  "topo_dfsHelper_topo_neighbors_dom (Inl (adj, node, st)) \<Longrightarrow>
     topo_dfsHelper adj node st = Inr st' \<Longrightarrow> set (fst st) \<subseteq> set (fst st')"
  "topo_dfsHelper_topo_neighbors_dom (Inr (adj, ns, st)) \<Longrightarrow>
     topo_neighbors adj ns st = Inr st' \<Longrightarrow> set (fst st) \<subseteq> set (fst st')"
proof (induct adj node st and adj ns st arbitrary: st' and st' rule: topo_dfsHelper_topo_neighbors.pinduct)
  case (1 adj node visited result steps)
  from "1.prems" "1.hyps"(1) show ?case
    by (auto simp: topo_dfsHelper.psimps Let_def set_add_def split: if_splits sum.splits
        dest!: "1.hyps"(2)[OF refl refl])
next
  case (2 adj st)
  then show ?case by (simp add: topo_neighbors.psimps)
next
  case (3 adj neighbor rest visited result steps)
  show ?case
  proof (cases "neighbor \<notin> set visited")
    case True
    with "3.prems" "3.hyps"(1) obtain st1 where
      a: "topo_dfsHelper adj neighbor (visited, result, steps) = Inr st1"
      and b: "topo_neighbors adj rest st1 = Inr st'"
      by (auto simp: topo_neighbors.psimps split: sum.splits)
    from "3.hyps"(2)[OF True a] "3.hyps"(3)[OF True a b] show ?thesis by auto
  next
    case False
    with "3.prems" "3.hyps"(1) have "topo_neighbors adj rest (visited, result, steps) = Inr st'"
      by (simp add: topo_neighbors.psimps)
    from "3.hyps"(4)[OF False this] show ?thesis .
  qed
qed

termination topo_dfsHelper
proof (relation "measures
   [\<lambda>x. case x of
        Inl (adj, node, (visited, result, steps)) \<Rightarrow>
          (if node < length adj then card ({..<length adj} - set (set_add node visited)) + 1 else 0)
      | Inr (adj, ns, (visited, result, steps)) \<Rightarrow> card ({..<length adj} - set visited),
    \<lambda>x. case x of Inl _ \<Rightarrow> 0 | Inr (adj, ns, st) \<Rightarrow> 1 + length ns]", goal_cases)
  case 1 show ?case by simp
next
  case (2 adj node visited result steps visited1 steps1)
  then show ?case by simp
next
  case (3 adj neighbor rest visited result steps)
  show ?case
  proof (cases "neighbor < length adj")
    case True
    with 3 have in_diff: "neighbor \<in> {..<length adj} - set visited" by simp
    have "{..<length adj} - set (set_add neighbor visited) = ({..<length adj} - set visited) - {neighbor}"
      by (auto simp: set_add_def)
    then have "card ({..<length adj} - set (set_add neighbor visited)) + 1
        = card ({..<length adj} - set visited)"
      using card_Suc_Diff1[of "{..<length adj} - set visited" neighbor] in_diff by simp
    with True show ?thesis by simp
  next
    case False
    then show ?thesis by (auto simp: card_gt_0_iff)
  qed
next
  case (4 adj neighbor rest visited result steps st1)
  obtain visited1 result1 steps1 where st1: "st1 = (visited1, result1, steps1)"
    by (cases st1) auto
  from topo_visited_mono_dom(1)[OF 4(3) 4(2)] st1 have "set visited \<subseteq> set visited1" by simp
  then have "card ({..<length adj} - set visited1) \<le> card ({..<length adj} - set visited)"
    by (intro card_mono) auto
  then show ?case unfolding st1 by auto
next
  case 5
  then show ?case by simp
qed


declare topo_dfsHelper.simps [simp del] topo_neighbors.simps [simp del]

function topo_roots :: "nat list list \<Rightarrow> nat \<Rightarrow> nat \<Rightarrow> tstate \<Rightarrow> error + tstate" where
  "topo_roots adj n i (visited, result, steps) =
     (if i < n then
        (if i \<notin> set visited then
           (case topo_dfsHelper adj i (visited, result, steps) of
              Inl e \<Rightarrow> Inl e
            | Inr st1 \<Rightarrow> topo_roots adj n (i + 1) st1)
         else topo_roots adj n (i + 1) (visited, result, steps))
      else Inr (visited, result, steps))"
  by pat_completeness auto
termination
  by (relation "measure (\<lambda>(adj, n, i, st). n - i)") auto

declare topo_roots.simps [simp del]

text \<open>The parameter \<^verbatim>\<open>isDirected\<close> of the source is never read.\<close>

definition topologicalSort :: "graph \<Rightarrow> error + gstep list" where
  "topologicalSort graph =
     (case directedAdjacency graph of
        Inl e \<Rightarrow> Inl e
      | Inr adj \<Rightarrow>
          (case topo_roots adj (length (nodes graph)) 0 ([], [], []) of
             Inl e \<Rightarrow> Inl e
           | Inr (visited, result, steps) \<Rightarrow> Inr steps))"

subsection \<open>detectCycle\<close>

text \<open>
  The state of \<^verbatim>\<open>detectCycle\<close>: the object \<^verbatim>\<open>states\<close> (keys \<open>0 .. n - 1\<close>, values 0, 1, 2) as
  the list of its values, the flag \<^verbatim>\<open>hasCycle\<close> and \<^verbatim>\<open>steps\<close>. \<^verbatim>\<open>states[neighbor]\<close> is
  undefined for a neighbor that is no key, and then neither test of the loop holds.
  \<^verbatim>\<open>dfsHelper\<close> is only entered at a key of \<^verbatim>\<open>states\<close>.
\<close>

type_synonym cstate = "nat list \<times> bool \<times> gstep list"

function cycle_dfsHelper :: "nat list list \<Rightarrow> nat \<Rightarrow> cstate \<Rightarrow> error + cstate"
  and cycle_neighbors :: "nat list list \<Rightarrow> nat list \<Rightarrow> cstate \<Rightarrow> error + cstate" where
  "cycle_dfsHelper adj node (states, hasCycle, steps) =
     (let states1 = states[node := 1];
          steps1 = steps @ [Visiting node False]
      in if node < length adj then
           (case cycle_neighbors adj (adj ! node) (states1, hasCycle, steps1) of
              Inl e \<Rightarrow> Inl e
            | Inr (states2, hasCycle2, steps2) \<Rightarrow>
                let states3 = states2[node := 2] in
                Inr (states3, hasCycle2, steps2 @ [FinishC node hasCycle2]))
         else Inl TypeError)"
| "cycle_neighbors adj [] st = Inr st"
| "cycle_neighbors adj (neighbor # rest) (states, hasCycle, steps) =
     (if neighbor < length states \<and> states ! neighbor = 1 then
        cycle_neighbors adj rest (states, True, steps @ [Cycle neighbor True])
      else if neighbor < length states \<and> states ! neighbor = 0 then
        (case cycle_dfsHelper adj neighbor (states, hasCycle, steps) of
           Inl e \<Rightarrow> Inl e
         | Inr st1 \<Rightarrow> cycle_neighbors adj rest st1)
      else cycle_neighbors adj rest (states, hasCycle, steps))"
  by pat_completeness auto

definition zeros :: "nat list \<Rightarrow> nat" where
  "zeros states = card {i. i < length states \<and> states ! i = 0}"

lemma zeros_update_le: "k \<noteq> 0 \<Longrightarrow> zeros (states[node := k]) \<le> zeros states"
  unfolding zeros_def
proof (intro card_mono subsetI)
  fix x assume k: "k \<noteq> 0" and "x \<in> {i. i < length (states[node := k]) \<and> states[node := k] ! i = 0}"
  then have x: "x < length states" "states[node := k] ! x = 0" by simp_all
  with k have "x \<noteq> node" by auto
  with x show "x \<in> {i. i < length states \<and> states ! i = 0}" by simp
qed simp

lemma zeros_update_zero:
  assumes "node < length states" "states ! node = 0" "k \<noteq> 0"
  shows "zeros (states[node := k]) + 1 = zeros states"
proof -
  have "{i. i < length (states[node := k]) \<and> states[node := k] ! i = 0}
      = {i. i < length states \<and> states ! i = 0} - {node}"
    using assms by (auto simp: nth_list_update)
  moreover have "node \<in> {i. i < length states \<and> states ! i = 0}" using assms by simp
  ultimately show ?thesis unfolding zeros_def
    using card_Suc_Diff1[of "{i. i < length states \<and> states ! i = 0}" node] by simp
qed

lemma cycle_zeros_dom:
  "cycle_dfsHelper_cycle_neighbors_dom (Inl (adj, node, st)) \<Longrightarrow>
     cycle_dfsHelper adj node st = Inr st' \<Longrightarrow> zeros (fst st') \<le> zeros (fst st)"
  "cycle_dfsHelper_cycle_neighbors_dom (Inr (adj, ns, st)) \<Longrightarrow>
     cycle_neighbors adj ns st = Inr st' \<Longrightarrow> zeros (fst st') \<le> zeros (fst st)"
proof (induct adj node st and adj ns st arbitrary: st' and st' rule: cycle_dfsHelper_cycle_neighbors.pinduct)
  case (1 adj node states hasCycle steps)
  from "1.prems" "1.hyps"(1) obtain states2 hasCycle2 steps2 where
    a: "cycle_neighbors adj (adj ! node) (states[node := 1], hasCycle, steps @ [Visiting node False])
         = Inr (states2, hasCycle2, steps2)"
    and b: "st' = (states2[node := 2], hasCycle2, steps2 @ [FinishC node hasCycle2])"
    and c: "node < length adj"
    by (auto simp: cycle_dfsHelper.psimps Let_def split: if_splits sum.splits)
  from "1.hyps"(2)[OF refl refl c a] have "zeros states2 \<le> zeros (states[node := 1])" by simp
  also have "\<dots> \<le> zeros states" by (rule zeros_update_le) simp
  finally show ?case unfolding b using zeros_update_le[of 2 states2 node] by simp
next
  case (2 adj st)
  then show ?case by (simp add: cycle_neighbors.psimps)
next
  case (3 adj neighbor rest states hasCycle steps)
  consider (gray) "neighbor < length states \<and> states ! neighbor = 1"
    | (white) "\<not> (neighbor < length states \<and> states ! neighbor = 1)"
        "neighbor < length states \<and> states ! neighbor = 0"
    | (other) "\<not> (neighbor < length states \<and> states ! neighbor = 1)"
        "\<not> (neighbor < length states \<and> states ! neighbor = 0)"
    by blast
  then show ?case
  proof cases
    case gray
    with "3.prems" "3.hyps"(1)
    have "cycle_neighbors adj rest (states, True, steps @ [Cycle neighbor True]) = Inr st'"
      by (simp add: cycle_neighbors.psimps)
    from "3.hyps"(2)[OF gray this] show ?thesis by simp
  next
    case white
    with "3.prems" "3.hyps"(1) obtain st1 where
      a: "cycle_dfsHelper adj neighbor (states, hasCycle, steps) = Inr st1"
      and b: "cycle_neighbors adj rest st1 = Inr st'"
      by (auto simp: cycle_neighbors.psimps split: sum.splits)
    from "3.hyps"(3)[OF white a] "3.hyps"(4)[OF white a b] show ?thesis by simp
  next
    case other
    with "3.prems" "3.hyps"(1)
    have "cycle_neighbors adj rest (states, hasCycle, steps) = Inr st'"
      by (auto simp: cycle_neighbors.psimps split: if_splits)
    from "3.hyps"(5)[OF other this] show ?thesis by simp
  qed
qed

termination cycle_dfsHelper
proof (relation "measures
   [\<lambda>x. case x of
        Inl (adj, node, (states, hasCycle, steps)) \<Rightarrow>
          (if node < length adj then zeros (states[node := 1]) + 1 else 0)
      | Inr (adj, ns, (states, hasCycle, steps)) \<Rightarrow> zeros states,
    \<lambda>x. case x of Inl _ \<Rightarrow> 0 | Inr (adj, ns, st) \<Rightarrow> 1 + length ns]", goal_cases)
  case 1 show ?case by simp
next
  case 2 then show ?case by simp
next
  case 3 then show ?case by simp
next
  case (4 adj neighbor rest states hasCycle steps)
  then show ?case
    using zeros_update_zero[of neighbor states 1] by (cases "neighbor < length adj") auto
next
  case (5 adj neighbor rest states hasCycle steps st1)
  obtain states1 hasCycle1 steps1 where st1: "st1 = (states1, hasCycle1, steps1)"
    by (cases st1) auto
  from cycle_zeros_dom(1)[OF 5(4) 5(3)] st1 have "zeros states1 \<le> zeros states" by simp
  then show ?case unfolding st1 by auto
next
  case 6 then show ?case by simp
qed

declare cycle_dfsHelper.simps [simp del] cycle_neighbors.simps [simp del]

function cycle_roots :: "nat list list \<Rightarrow> nat \<Rightarrow> nat \<Rightarrow> cstate \<Rightarrow> error + cstate" where
  "cycle_roots adj n i (states, hasCycle, steps) =
     (if i < n then
        (if i < length states \<and> states ! i = 0 then
           (case cycle_dfsHelper adj i (states, hasCycle, steps) of
              Inl e \<Rightarrow> Inl e
            | Inr st1 \<Rightarrow> cycle_roots adj n (i + 1) st1)
         else cycle_roots adj n (i + 1) (states, hasCycle, steps))
      else Inr (states, hasCycle, steps))"
  by pat_completeness auto
termination
  by (relation "measure (\<lambda>(adj, n, i, st). n - i)") auto

declare cycle_roots.simps [simp del]

definition detectCycle :: "graph \<Rightarrow> error + gstep list" where
  "detectCycle graph =
     (let states = replicate (length (nodes graph)) 0 in
      case directedAdjacency graph of
        Inl e \<Rightarrow> Inl e
      | Inr adj \<Rightarrow>
          (case cycle_roots adj (length (nodes graph)) 0 (states, False, []) of
             Inl e \<Rightarrow> Inl e
           | Inr (states1, hasCycle, steps) \<Rightarrow> Inr steps))"


section \<open>Properties of detectCycle\<close>

fun is_cycle :: "gstep \<Rightarrow> bool" where
  "is_cycle (Cycle _ _) = True"
| "is_cycle _ = False"

definition finish_ok :: "gstep list \<Rightarrow> bool" where
  "finish_ok steps \<longleftrightarrow>
     (\<forall>i<length steps. \<forall>n b. steps ! i = FinishC n b \<longrightarrow> (b \<longleftrightarrow> (\<exists>j<i. is_cycle (steps ! j))))"

definition flag_ok :: "cstate \<Rightarrow> bool" where
  "flag_ok st \<longleftrightarrow>
     (case st of (states, hasCycle, steps) \<Rightarrow>
        (hasCycle \<longleftrightarrow> (\<exists>s \<in> set steps. is_cycle s)) \<and> finish_ok steps)"

lemma finish_ok_snoc:
  assumes "finish_ok steps" "\<And>n b. s = FinishC n b \<Longrightarrow> (b \<longleftrightarrow> (\<exists>t \<in> set steps. is_cycle t))"
  shows "finish_ok (steps @ [s])"
  unfolding finish_ok_def
proof (intro allI impI)
  fix i n b assume i: "i < length (steps @ [s])" and eq: "(steps @ [s]) ! i = FinishC n b"
  show "b \<longleftrightarrow> (\<exists>j<i. is_cycle ((steps @ [s]) ! j))"
  proof (cases "i < length steps")
    case True
    then have pre: "\<And>j. j < i \<Longrightarrow> (steps @ [s]) ! j = steps ! j" by (simp add: nth_append)
    from True eq have "steps ! i = FinishC n b" by (simp add: nth_append)
    with assms(1) True have "b \<longleftrightarrow> (\<exists>j<i. is_cycle (steps ! j))"
      unfolding finish_ok_def by blast
    with pre show ?thesis by auto
  next
    case False
    with i have il: "i = length steps" by simp
    with eq have "s = FinishC n b" by simp
    from assms(2)[OF this] have "b \<longleftrightarrow> (\<exists>t \<in> set steps. is_cycle t)" .
    also have "\<dots> \<longleftrightarrow> (\<exists>j<length steps. is_cycle (steps ! j))"
      by (metis in_set_conv_nth)
    also have "\<dots> \<longleftrightarrow> (\<exists>j<i. is_cycle ((steps @ [s]) ! j))"
      unfolding il by (auto simp: nth_append)
    finally show ?thesis .
  qed
qed

lemma flag_ok_steps:
  "flag_ok (states, hasCycle, steps) \<Longrightarrow> flag_ok (states', hasCycle, steps @ [Visiting n False])"
  "flag_ok (states, hasCycle, steps) \<Longrightarrow> flag_ok (states', True, steps @ [Cycle n True])"
  "flag_ok (states, hasCycle, steps) \<Longrightarrow> flag_ok (states', hasCycle, steps @ [FinishC n hasCycle])"
  by (auto simp: flag_ok_def intro!: finish_ok_snoc)

lemma cycle_flag_ok:
  "flag_ok st \<Longrightarrow> cycle_dfsHelper adj node st = Inr st' \<Longrightarrow> flag_ok st'"
  "flag_ok st \<Longrightarrow> cycle_neighbors adj ns st = Inr st' \<Longrightarrow> flag_ok st'"
proof (induction adj node st and adj ns st arbitrary: st' and st'
    rule: cycle_dfsHelper_cycle_neighbors.induct)
  case (1 adj node states hasCycle steps)
  from "1.prems"(2) obtain states2 hasCycle2 steps2 where
    a: "cycle_neighbors adj (adj ! node) (states[node := 1], hasCycle, steps @ [Visiting node False])
         = Inr (states2, hasCycle2, steps2)"
    and b: "st' = (states2[node := 2], hasCycle2, steps2 @ [FinishC node hasCycle2])"
    and c: "node < length adj"
    by (auto simp: cycle_dfsHelper.simps Let_def split: if_splits sum.splits)
  have "flag_ok (states[node := 1], hasCycle, steps @ [Visiting node False])"
    using "1.prems"(1) by (rule flag_ok_steps)
  from "1.IH"[OF refl refl c this a] show ?case unfolding b by (rule flag_ok_steps)
next
  case (2 adj st)
  then show ?case by (simp add: cycle_neighbors.simps)
next
  case (3 adj neighbor rest states hasCycle steps)
  consider (gray) "neighbor < length states \<and> states ! neighbor = 1"
    | (white) "\<not> (neighbor < length states \<and> states ! neighbor = 1)"
        "neighbor < length states \<and> states ! neighbor = 0"
    | (other) "\<not> (neighbor < length states \<and> states ! neighbor = 1)"
        "\<not> (neighbor < length states \<and> states ! neighbor = 0)"
    by blast
  then show ?case
  proof cases
    case gray
    with "3.prems"(2)
    have r: "cycle_neighbors adj rest (states, True, steps @ [Cycle neighbor True]) = Inr st'"
      by (simp add: cycle_neighbors.simps)
    have "flag_ok (states, True, steps @ [Cycle neighbor True])"
      using "3.prems"(1) by (rule flag_ok_steps)
    from "3.IH"(1)[OF gray this r] show ?thesis .
  next
    case white
    with "3.prems"(2) obtain st1 where
      a: "cycle_dfsHelper adj neighbor (states, hasCycle, steps) = Inr st1"
      and b: "cycle_neighbors adj rest st1 = Inr st'"
      by (auto simp: cycle_neighbors.simps split: sum.splits)
    from "3.IH"(3)[OF white a "3.IH"(2)[OF white "3.prems"(1) a] b] show ?thesis .
  next
    case other
    with "3.prems"(2)
    have r: "cycle_neighbors adj rest (states, hasCycle, steps) = Inr st'"
      by (auto simp: cycle_neighbors.simps split: if_splits)
    from "3.IH"(4)[OF other "3.prems"(1) r] show ?thesis .
  qed
qed

lemma cycle_roots_flag_ok:
  "flag_ok st \<Longrightarrow> cycle_roots adj n i st = Inr st' \<Longrightarrow> flag_ok st'"
proof (induction adj n i st arbitrary: st' rule: cycle_roots.induct)
  case (1 adj n i states hasCycle steps)
  show ?case
  proof (cases "i < n")
    case False
    with "1.prems" show ?thesis by (simp add: cycle_roots.simps[of adj n i])
  next
    case True
    show ?thesis
    proof (cases "i < length states \<and> states ! i = 0")
      case white: True
      with True "1.prems"(2) obtain st1 where
        a: "cycle_dfsHelper adj i (states, hasCycle, steps) = Inr st1"
        and b: "cycle_roots adj n (i + 1) st1 = Inr st'"
        by (auto simp: cycle_roots.simps[of adj n i] split: sum.splits)
      from "1.IH"(1)[OF True white a cycle_flag_ok(1)[OF "1.prems"(1) a] b] show ?thesis .
    next
      case False
      with True "1.prems"(2) have "cycle_roots adj n (i + 1) (states, hasCycle, steps) = Inr st'"
        by (auto simp: cycle_roots.simps[of adj n i] split: if_splits)
      from "1.IH"(2)[OF True False "1.prems"(1) this] show ?thesis .
    qed
  qed
qed

lemma detectCycle_finish_ok: "detectCycle graph = Inr steps \<Longrightarrow> finish_ok steps"
proof -
  assume r: "detectCycle graph = Inr steps"
  then obtain adj states1 hasCycle where
    "cycle_roots adj (length (nodes graph)) 0 (replicate (length (nodes graph)) 0, False, [])
       = Inr (states1, hasCycle, steps)"
    by (auto simp: detectCycle_def Let_def split: sum.splits)
  moreover have "flag_ok (replicate (length (nodes graph)) 0, False, [])"
    by (simp add: flag_ok_def finish_ok_def)
  ultimately have "flag_ok (states1, hasCycle, steps)" by (rule cycle_roots_flag_ok[rotated])
  then show ?thesis by (simp add: flag_ok_def)
qed


lemma add_directed_ok:
  "\<forall>(u, v) \<in> set es. u < length adj \<Longrightarrow>
   \<exists>adj'. add_directed adj es = Inr adj' \<and> length adj' = length adj"
  by (induction adj es rule: add_directed.induct) auto

lemma cycle_total:
  "length (fst st) = length adj \<Longrightarrow> node < length adj \<Longrightarrow>
     \<exists>st'. cycle_dfsHelper adj node st = Inr st' \<and> length (fst st') = length adj"
  "length (fst st) = length adj \<Longrightarrow>
     \<exists>st'. cycle_neighbors adj ns st = Inr st' \<and> length (fst st') = length adj"
proof (induction adj node st and adj ns st rule: cycle_dfsHelper_cycle_neighbors.induct)
  case (1 adj node states hasCycle steps)
  from "1.IH"[OF refl refl "1.prems"(2)] "1.prems"(1)
  obtain st2 where a: "cycle_neighbors adj (adj ! node)
      (states[node := 1], hasCycle, steps @ [Visiting node False]) = Inr st2"
    and l: "length (fst st2) = length adj" by auto
  obtain states2 hasCycle2 steps2 where st2: "st2 = (states2, hasCycle2, steps2)"
    by (cases st2) auto
  show ?case using a l "1.prems"(2) unfolding st2
    by (simp add: cycle_dfsHelper.simps Let_def)
next
  case (2 adj st)
  then show ?case by (simp add: cycle_neighbors.simps)
next
  case (3 adj neighbor rest states hasCycle steps)
  consider (gray) "neighbor < length states \<and> states ! neighbor = 1"
    | (white) "\<not> (neighbor < length states \<and> states ! neighbor = 1)"
        "neighbor < length states \<and> states ! neighbor = 0"
    | (other) "\<not> (neighbor < length states \<and> states ! neighbor = 1)"
        "\<not> (neighbor < length states \<and> states ! neighbor = 0)"
    by blast
  then show ?case
  proof cases
    case gray
    from "3.IH"(1)[OF gray] "3.prems" gray show ?thesis
      by (simp add: cycle_neighbors.simps)
  next
    case white
    from "3.IH"(2)[OF white] "3.prems" white
    obtain st1 where a: "cycle_dfsHelper adj neighbor (states, hasCycle, steps) = Inr st1"
      and l: "length (fst st1) = length adj" by auto
    from "3.IH"(3)[OF white a l] a white show ?thesis
      by (simp add: cycle_neighbors.simps)
  next
    case other
    from "3.IH"(4)[OF other] "3.prems" other show ?thesis
      by (auto simp: cycle_neighbors.simps)
  qed
qed

lemma cycle_roots_total:
  "length (fst st) = length adj \<Longrightarrow> n \<le> length adj \<Longrightarrow> \<exists>st'. cycle_roots adj n i st = Inr st'"
proof (induction adj n i st rule: cycle_roots.induct)
  case (1 adj n i states hasCycle steps)
  show ?case
  proof (cases "i < n")
    case False
    then show ?thesis by (simp add: cycle_roots.simps[of adj n i])
  next
    case True
    show ?thesis
    proof (cases "i < length states \<and> states ! i = 0")
      case white: True
      from cycle_total(1)[of "(states, hasCycle, steps)" adj i] "1.prems" True
      obtain st1 where a: "cycle_dfsHelper adj i (states, hasCycle, steps) = Inr st1"
        and l: "length (fst st1) = length adj" by auto
      from "1.IH"(1)[OF True white a l "1.prems"(2)] a True white show ?thesis
        by (simp add: cycle_roots.simps[of adj n i])
    next
      case False
      from "1.IH"(2)[OF True False "1.prems"] True False show ?thesis
        by (auto simp: cycle_roots.simps[of adj n i])
    qed
  qed
qed

lemma detectCycle_total:
  assumes "\<forall>(u, v) \<in> set (edges graph). u < length (nodes graph)"
  shows "\<exists>steps. detectCycle graph = Inr steps"
proof -
  from add_directed_ok[of "edges graph" "replicate (length (nodes graph)) []"] assms
  obtain adj where a: "directedAdjacency graph = Inr adj" and l: "length adj = length (nodes graph)"
    by (auto simp: directedAdjacency_def)
  from cycle_roots_total[of "(replicate (length (nodes graph)) 0, False, [])" adj "length (nodes graph)" 0] l
  obtain st' where "cycle_roots adj (length (nodes graph)) 0
      (replicate (length (nodes graph)) 0, False, []) = Inr st'" by auto
  with a show ?thesis by (cases st') (simp add: detectCycle_def)
qed

text \<open>
  C6. Every \<open>finish\<close> step that \<open>detectCycle\<close> emits carries the value the found-cycle
  flag has when the node completes: its \<open>hasCycle\<close> is true exactly when a \<open>cycle\<close> step
  stands earlier in the returned sequence. \<open>detectCycle\<close> returns a sequence for every
  graph whose edges start at a node of the graph. On the cyclic graph with the edges
  \<open>0\<rightarrow>1\<close>, \<open>0\<rightarrow>2\<close>, \<open>2\<rightarrow>0\<close> node 1 finishes before the back edge is found and carries
  \<open>hasCycle: false\<close>.
\<close>

theorem detectCycle_finish_hasCycle:
  "(detectCycle graph = Inr steps \<longrightarrow>
      (\<forall>i<length steps. \<forall>node b. steps ! i = FinishC node b \<longrightarrow>
         (b \<longleftrightarrow> (\<exists>j<i. is_cycle (steps ! j)))))
   \<and> ((\<forall>(u, v) \<in> set (edges graph). u < length (nodes graph)) \<longrightarrow>
        (\<exists>steps. detectCycle graph = Inr steps))
   \<and> detectCycle \<lparr>nodes = [0, 1, 2], edges = [(0, 1), (0, 2), (2, 0)]\<rparr> =
       Inr [Visiting 0 False, Visiting 1 False, FinishC 1 False, Visiting 2 False,
            Cycle 0 True, FinishC 2 True, FinishC 0 True]"
proof (intro conjI impI)
  assume "detectCycle graph = Inr steps"
  then show "\<forall>i<length steps. \<forall>node b. steps ! i = FinishC node b \<longrightarrow>
         (b \<longleftrightarrow> (\<exists>j<i. is_cycle (steps ! j)))"
    using detectCycle_finish_ok[of graph steps] by (simp add: finish_ok_def)
next
  assume "\<forall>(u, v) \<in> set (edges graph). u < length (nodes graph)"
  then show "\<exists>steps. detectCycle graph = Inr steps" by (rule detectCycle_total)
next
  show "detectCycle \<lparr>nodes = [0, 1, 2], edges = [(0, 1), (0, 2), (2, 0)]\<rparr> =
       Inr [Visiting 0 False, Visiting 1 False, FinishC 1 False, Visiting 2 False,
            Cycle 0 True, FinishC 2 True, FinishC 0 True]"
    by code_simp
qed

text \<open>Witness for C6: the triangle \<open>0\<rightarrow>1\<close>, \<open>1\<rightarrow>2\<close>, \<open>2\<rightarrow>0\<close>; every finish step follows the
  cycle step.\<close>

theorem detectCycle_finish_hasCycle_witness:
  "detectCycle \<lparr>nodes = [0, 1, 2], edges = [(0, 1), (1, 2), (2, 0)]\<rparr> =
     Inr [Visiting 0 False, Visiting 1 False, Visiting 2 False, Cycle 0 True,
          FinishC 2 True, FinishC 1 True, FinishC 0 True]
   \<and> list_all (\<lambda>(u, v). u < length (nodes \<lparr>nodes = [0, 1, 2], edges = [(0, 1), (1, 2), (2, 0)]\<rparr>))
        (edges \<lparr>nodes = [0, 1, 2], edges = [(0, 1), (1, 2), (2, 0)]\<rparr>)
   \<and> (True \<longleftrightarrow> (\<exists>j<4. is_cycle ([Visiting 0 False, Visiting 1 False, Visiting 2 False, Cycle 0 True,
          FinishC 2 True, FinishC 1 True, FinishC 0 True] ! j)))"
proof -
  let ?g = "\<lparr>nodes = [0, 1, 2], edges = [(0, 1), (1, 2), (2, 0)]\<rparr>"
  let ?s = "[Visiting 0 False, Visiting 1 False, Visiting 2 False, Cycle 0 True,
          FinishC 2 True, FinishC 1 True, FinishC 0 True]"
  have r: "detectCycle ?g = Inr ?s" by code_simp
  from detectCycle_finish_hasCycle[of ?g ?s] r
  have "\<forall>i<length ?s. \<forall>node b. ?s ! i = FinishC node b \<longrightarrow> (b \<longleftrightarrow> (\<exists>j<i. is_cycle (?s ! j)))"
    by blast
  then have "4 < length ?s \<longrightarrow> (\<forall>node b. ?s ! 4 = FinishC node b \<longrightarrow> (b \<longleftrightarrow> (\<exists>j<4. is_cycle (?s ! j))))"
    by (rule spec)
  then have "\<forall>node b. ?s ! 4 = FinishC node b \<longrightarrow> (b \<longleftrightarrow> (\<exists>j<4. is_cycle (?s ! j)))"
    by simp
  then have "?s ! 4 = FinishC 2 True \<longrightarrow> (True \<longleftrightarrow> (\<exists>j<4. is_cycle (?s ! j)))"
    by blast
  then have "True \<longleftrightarrow> (\<exists>j<4. is_cycle (?s ! j))" by simp
  with r show ?thesis by simp
qed


section \<open>Properties of topologicalSort\<close>

fun is_finish :: "gstep \<Rightarrow> bool" where
  "is_finish (Finish _ _ _) = True"
| "is_finish _ = False"

definition before :: "nat list \<Rightarrow> nat \<Rightarrow> nat \<Rightarrow> bool" where
  "before r u v \<longleftrightarrow> (\<exists>xs ys zs. r = xs @ u # ys @ v # zs)"

definition final_result :: "gstep list \<Rightarrow> nat list" where
  "final_result steps =
     (if filter is_finish steps = [] then [] else step_result (last (filter is_finish steps)))"

fun topo_ok :: "(nat \<times> nat) set \<Rightarrow> nat list \<Rightarrow> bool" where
  "topo_ok E [] = True"
| "topo_ok E (u # r) = ((\<forall>v. (u, v) \<in> E \<longrightarrow> v \<in> set r) \<and> topo_ok E r)"

definition adj_ok :: "(nat \<times> nat) set \<Rightarrow> nat list list \<Rightarrow> bool" where
  "adj_ok E adj \<longleftrightarrow>
     (\<forall>u<length adj. set (adj ! u) = {v. (u, v) \<in> E}) \<and> (\<forall>(u, v) \<in> E. v < length adj) \<and> acyclic E"

definition gray :: "tstate \<Rightarrow> nat set" where
  "gray st = set (fst st) - set (fst (snd st))"

definition tinv :: "(nat \<times> nat) set \<Rightarrow> tstate \<Rightarrow> bool" where
  "tinv E st \<longleftrightarrow>
     (case st of (visited, result, steps) \<Rightarrow>
        set result \<subseteq> set visited \<and> distinct result \<and> topo_ok E result \<and> final_result steps = result)"

lemma final_result_snoc:
  "final_result (steps @ [Finish n vs r]) = r"
  "final_result (steps @ [VisitT n vs r]) = final_result steps"
  by (simp_all add: final_result_def)

lemma topo_ok_suffix: "topo_ok E (xs @ ys) \<Longrightarrow> topo_ok E ys"
  by (induction xs) auto

lemma topo_ok_before:
  assumes "topo_ok E r" "u \<in> set r" "(u, v) \<in> E"
  shows "before r u v"
proof -
  from assms(2) obtain xs rest where r: "r = xs @ u # rest" by (auto dest: split_list)
  with assms(1) have "topo_ok E (u # rest)" by (auto dest: topo_ok_suffix)
  with assms(3) have "v \<in> set rest" by simp
  then obtain ys zs where "rest = ys @ v # zs" by (auto dest: split_list)
  with r show ?thesis unfolding before_def by blast
qed

lemma add_directed_sets:
  "add_directed adj0 es = Inr adj \<Longrightarrow>
   length adj = length adj0 \<and> (\<forall>u<length adj0. set (adj ! u) = set (adj0 ! u) \<union> {v. (u, v) \<in> set es})"
proof (induction adj0 es arbitrary: adj rule: add_directed.induct)
  case (1 adj0)
  then show ?case by simp
next
  case (2 adj0 u v es)
  from "2.prems" have u: "u < length adj0"
    and r: "add_directed (adj0[u := adj0 ! u @ [v]]) es = Inr adj"
    by (auto split: if_splits)
  from "2.IH"[OF u r] have len: "length adj = length adj0"
    and sets: "\<forall>w<length adj0. set (adj ! w) = set ((adj0[u := adj0 ! u @ [v]]) ! w) \<union> {x. (w, x) \<in> set es}"
    by simp_all
  show ?case
  proof (intro conjI allI impI)
    show "length adj = length adj0" by (rule len)
    fix w assume w: "w < length adj0"
    with sets have "set (adj ! w) = set ((adj0[u := adj0 ! u @ [v]]) ! w) \<union> {x. (w, x) \<in> set es}"
      by blast
    with w u show "set (adj ! w) = set (adj0 ! w) \<union> {x. (w, x) \<in> set ((u, v) # es)}"
      by (cases "w = u") (auto simp: nth_list_update)
  qed
qed

lemma topo_contract:
  "adj_ok E adj \<Longrightarrow> tinv E st \<Longrightarrow> node < length adj \<Longrightarrow> node \<notin> set (fst st) \<Longrightarrow>
   (\<forall>g \<in> gray st. (g, node) \<in> E\<^sup>+) \<Longrightarrow>
     \<exists>st'. topo_dfsHelper adj node st = Inr st' \<and> tinv E st' \<and> set (fst st) \<subseteq> set (fst st')
        \<and> gray st' = gray st \<and> node \<in> set (fst (snd st'))"
  "adj_ok E adj \<Longrightarrow> tinv E st \<Longrightarrow>
   (\<forall>v \<in> set ns. v < length adj \<and> (\<forall>g \<in> gray st. (g, v) \<in> E\<^sup>+)) \<Longrightarrow>
     \<exists>st'. topo_neighbors adj ns st = Inr st' \<and> tinv E st' \<and> set (fst st) \<subseteq> set (fst st')
        \<and> gray st' = gray st \<and> set ns \<subseteq> set (fst (snd st'))"
proof (induction adj node st and adj ns st rule: topo_dfsHelper_topo_neighbors.induct)
  case (1 adj node visited result steps)
  let ?V1 = "set_add node visited"
  let ?st1 = "(?V1, result, steps @ [VisitT node ?V1 result])"
  from "1.prems"(4) have V1: "set ?V1 = insert node (set visited)" by (simp add: set_add_def)
  have inv1: "tinv E ?st1"
    using "1.prems"(2) V1 by (auto simp: tinv_def final_result_snoc)
  have g1: "gray ?st1 = insert node (gray (visited, result, steps))"
    using "1.prems"(2,4) V1 by (auto simp: gray_def tinv_def)
  have nb: "\<forall>v \<in> set (adj ! node). v < length adj \<and> (\<forall>g \<in> gray ?st1. (g, v) \<in> E\<^sup>+)"
  proof (intro ballI conjI)
    fix v assume "v \<in> set (adj ! node)"
    with "1.prems"(1,3) have e: "(node, v) \<in> E" by (auto simp: adj_ok_def)
    with "1.prems"(1) show "v < length adj" by (auto simp: adj_ok_def)
    fix g assume "g \<in> gray ?st1"
    with g1 "1.prems"(5) have "g = node \<or> (g, node) \<in> E\<^sup>+" by auto
    with e show "(g, v) \<in> E\<^sup>+" by (auto intro: trancl_into_trancl)
  qed
  from "1.IH"[OF refl refl "1.prems"(3) "1.prems"(1) inv1 nb]
  obtain st2 where r2: "topo_neighbors adj (adj ! node) ?st1 = Inr st2" and inv2: "tinv E st2"
    and sub2: "set (fst ?st1) \<subseteq> set (fst st2)" and g2: "gray st2 = gray ?st1"
    and fin2: "set (adj ! node) \<subseteq> set (fst (snd st2))" by blast
  obtain visited2 result2 steps2 where st2: "st2 = (visited2, result2, steps2)" by (cases st2) auto
  let ?st3 = "(visited2, node # result2, steps2 @ [Finish node visited2 (node # result2)])"
  have eq: "topo_dfsHelper adj node (visited, result, steps) = Inr ?st3"
    using r2 "1.prems"(3) unfolding st2 by (simp add: topo_dfsHelper.simps Let_def)
  have ngray: "node \<in> gray st2" using g2 g1 by simp
  then have nin: "node \<in> set visited2" "node \<notin> set result2" unfolding st2 gray_def by simp_all
  have succ: "\<forall>v. (node, v) \<in> E \<longrightarrow> v \<in> set result2"
    using fin2 "1.prems"(1,3) unfolding st2 by (auto simp: adj_ok_def)
  have inv3: "tinv E ?st3"
    using inv2 nin succ unfolding st2 by (auto simp: tinv_def final_result_snoc)
  have g3: "gray ?st3 = gray (visited, result, steps)"
  proof -
    have "gray ?st3 = gray st2 - {node}" unfolding st2 gray_def by auto
    also have "\<dots> = gray (visited, result, steps)"
      unfolding g2 g1 using "1.prems"(4) by (auto simp: gray_def)
    finally show ?thesis .
  qed
  have sub3: "set (fst (visited, result, steps)) \<subseteq> set (fst ?st3)"
    using sub2 V1 unfolding st2 by auto
  show ?case unfolding eq using inv3 g3 sub3 by simp
next
  case (2 adj st)
  then show ?case by (simp add: topo_neighbors.simps)
next
  case (3 adj neighbor rest visited result steps)
  let ?st = "(visited, result, steps)"
  show ?case
  proof (cases "neighbor \<notin> set visited")
    case True
    have pre: "neighbor < length adj" "\<forall>g \<in> gray ?st. (g, neighbor) \<in> E\<^sup>+"
      using "3.prems"(3) by simp_all
    from "3.IH"(1)[OF True "3.prems"(1,2) pre(1) _ pre(2)] True
    obtain st1 where r1: "topo_dfsHelper adj neighbor ?st = Inr st1" and inv1: "tinv E st1"
      and sub1: "set (fst ?st) \<subseteq> set (fst st1)" and g1: "gray st1 = gray ?st"
      and fin1: "neighbor \<in> set (fst (snd st1))" by auto
    have "\<forall>v \<in> set rest. v < length adj \<and> (\<forall>g \<in> gray st1. (g, v) \<in> E\<^sup>+)"
      using "3.prems"(3) g1 by simp
    from "3.IH"(2)[OF True r1 "3.prems"(1) inv1 this]
    obtain st' where r': "topo_neighbors adj rest st1 = Inr st'" and inv': "tinv E st'"
      and sub': "set (fst st1) \<subseteq> set (fst st')" and g': "gray st' = gray st1"
      and fin': "set rest \<subseteq> set (fst (snd st'))" by blast
    have eq: "topo_neighbors adj (neighbor # rest) ?st = Inr st'"
      using True r1 r' by (simp add: topo_neighbors.simps)
    have "neighbor \<in> set (fst (snd st'))"
    proof (rule ccontr)
      assume n: "neighbor \<notin> set (fst (snd st'))"
      from inv1 fin1 have "neighbor \<in> set (fst st1)" by (auto simp: tinv_def split: prod.splits)
      with sub' n have "neighbor \<in> gray st'" by (auto simp: gray_def)
      with g' fin1 show False by (auto simp: gray_def)
    qed
    with fin' have "set (neighbor # rest) \<subseteq> set (fst (snd st'))" by simp
    with inv' sub1 sub' g' g1 show ?thesis unfolding eq by auto
  next
    case False
    have fin: "neighbor \<in> set result"
    proof (rule ccontr)
      assume "neighbor \<notin> set result"
      with False have "neighbor \<in> gray ?st" by (simp add: gray_def)
      with "3.prems"(3) have "(neighbor, neighbor) \<in> E\<^sup>+" by simp
      with "3.prems"(1) show False by (auto simp: adj_ok_def acyclic_def)
    qed
    have "\<forall>v \<in> set rest. v < length adj \<and> (\<forall>g \<in> gray ?st. (g, v) \<in> E\<^sup>+)"
      using "3.prems"(3) by simp
    from "3.IH"(3)[OF False "3.prems"(1,2) this]
    obtain st' where r': "topo_neighbors adj rest ?st = Inr st'" and inv': "tinv E st'"
      and sub': "set (fst ?st) \<subseteq> set (fst st')" and g': "gray st' = gray ?st"
      and fin': "set rest \<subseteq> set (fst (snd st'))" by blast
    have eq: "topo_neighbors adj (neighbor # rest) ?st = Inr st'"
      using False r' by (simp add: topo_neighbors.simps)
    have "neighbor \<in> set (fst (snd st'))"
    proof (rule ccontr)
      assume n: "neighbor \<notin> set (fst (snd st'))"
      from False sub' have "neighbor \<in> set (fst st')" by auto
      with n have "neighbor \<in> gray st'" by (simp add: gray_def)
      with g' fin show False by (simp add: gray_def)
    qed
    with fin' have "set (neighbor # rest) \<subseteq> set (fst (snd st'))" by simp
    with inv' sub' g' show ?thesis unfolding eq by auto
  qed
qed


lemma topo_roots_contract:
  "adj_ok E adj \<Longrightarrow> tinv E st \<Longrightarrow> gray st = {} \<Longrightarrow> n \<le> length adj \<Longrightarrow>
   {..<i} \<subseteq> set (fst st) \<Longrightarrow> i \<le> n \<Longrightarrow>
   \<exists>st'. topo_roots adj n i st = Inr st' \<and> tinv E st' \<and> gray st' = {} \<and> {..<n} \<subseteq> set (fst st')"
proof (induction adj n i st rule: topo_roots.induct)
  case (1 adj n i visited result steps)
  let ?st = "(visited, result, steps)"
  show ?case
  proof (cases "i < n")
    case False
    then have eq: "topo_roots adj n i ?st = Inr ?st" by (simp add: topo_roots.simps[of adj n i])
    from False "1.prems" have "i = n" by simp
    with "1.prems" show ?thesis unfolding eq by simp
  next
    case True
    show ?thesis
    proof (cases "i \<notin> set visited")
      case new: True
      from topo_contract(1)[OF "1.prems"(1,2), of i] True "1.prems"(3,4) new
      obtain st1 where r1: "topo_dfsHelper adj i ?st = Inr st1" and inv1: "tinv E st1"
        and sub1: "set (fst ?st) \<subseteq> set (fst st1)" and g1: "gray st1 = gray ?st"
        and fin1: "i \<in> set (fst (snd st1))" by auto
      from inv1 fin1 have "i \<in> set (fst st1)" by (auto simp: tinv_def split: prod.splits)
      with sub1 "1.prems"(5) have cover: "{..<i + 1} \<subseteq> set (fst st1)"
        by (auto simp: less_Suc_eq)
      from "1.IH"(1)[OF True new r1 "1.prems"(1) inv1 _ "1.prems"(4) cover] g1 "1.prems"(3) True
      show ?thesis using r1 new by (simp add: topo_roots.simps[of adj n i])
    next
      case False
      with "1.prems"(5) have cover: "{..<i + 1} \<subseteq> set (fst ?st)"
        by (auto simp: less_Suc_eq)
      from "1.IH"(2)[OF True False "1.prems"(1,2,3,4) cover] True False show ?thesis
        by (simp add: topo_roots.simps[of adj n i])
    qed
  qed
qed

lemma directedAdjacency_ok:
  assumes "\<forall>(u, v) \<in> set (edges graph). u < length (nodes graph) \<and> v < length (nodes graph)"
    and "acyclic (set (edges graph))"
  shows "\<exists>adj. directedAdjacency graph = Inr adj \<and> length adj = length (nodes graph)
           \<and> adj_ok (set (edges graph)) adj"
proof -
  let ?n = "length (nodes graph)"
  from assms(1) have "\<forall>(u, v) \<in> set (edges graph). u < length (replicate ?n ([]::nat list))" by auto
  from add_directed_ok[OF this]
  obtain adj where a: "add_directed (replicate ?n []) (edges graph) = Inr adj" by blast
  from add_directed_sets[OF a]
  have len: "length adj = ?n"
    and sets: "\<forall>u<?n. set (adj ! u) = {v. (u, v) \<in> set (edges graph)}" by simp_all
  have "adj_ok (set (edges graph)) adj"
    unfolding adj_ok_def using len sets assms by auto
  with a len show ?thesis by (simp add: directedAdjacency_def)
qed

text \<open>
  C7. For every directed acyclic graph (every edge joins two nodes of the graph, and the
  edges have no cycle) \<open>topologicalSort\<close> returns, and the \<open>result\<close> carried by the last
  \<open>finish\<close> step is an ordering of the nodes: it lists every node, no node twice, and for
  every edge \<open>u\<rightarrow>v\<close>, \<open>u\<close> stands before \<open>v\<close> in it.
\<close>

theorem topologicalSort_edges_forward:
  assumes "\<forall>(u, v) \<in> set (edges graph). u < length (nodes graph) \<and> v < length (nodes graph)"
    and "acyclic (set (edges graph))"
  shows "\<exists>steps. topologicalSort graph = Inr steps \<and>
           distinct (final_result steps) \<and>
           {..<length (nodes graph)} \<subseteq> set (final_result steps) \<and>
           (\<forall>(u, v) \<in> set (edges graph).
              filter is_finish steps \<noteq> [] \<and>
              before (step_result (last (filter is_finish steps))) u v)"
proof -
  let ?n = "length (nodes graph)" and ?E = "set (edges graph)"
  from directedAdjacency_ok[OF assms]
  obtain adj where a: "directedAdjacency graph = Inr adj" and len: "length adj = ?n"
    and ok: "adj_ok ?E adj" by blast
  have "tinv ?E ([], [], [])" by (simp add: tinv_def final_result_def)
  from topo_roots_contract[OF ok this, of ?n 0] len
  obtain st' where r: "topo_roots adj ?n 0 ([], [], []) = Inr st'" and inv: "tinv ?E st'"
    and g: "gray st' = {}" and cover: "{..<?n} \<subseteq> set (fst st')"
    by (auto simp: gray_def)
  obtain visited result steps where st': "st' = (visited, result, steps)" by (cases st') auto
  have eq: "topologicalSort graph = Inr steps"
    using a r st' by (simp add: topologicalSort_def)
  have fin: "final_result steps = result" and tok: "topo_ok ?E result"
    and dist: "distinct result"
    using inv st' by (simp_all add: tinv_def)
  have all: "{..<?n} \<subseteq> set result" using g cover st' by (auto simp: gray_def)
  have "\<forall>(u, v) \<in> ?E. filter is_finish steps \<noteq> [] \<and>
      before (step_result (last (filter is_finish steps))) u v"
  proof (intro ballI, clarify)
    fix u v assume e: "(u, v) \<in> ?E"
    with assms(1) all have u: "u \<in> set result" by auto
    then have ne: "filter is_finish steps \<noteq> []"
      using fin by (auto simp: final_result_def split: if_splits)
    with fin have "step_result (last (filter is_finish steps)) = result"
      by (simp add: final_result_def)
    with topo_ok_before[OF tok u e] ne
    show "filter is_finish steps \<noteq> [] \<and> before (step_result (last (filter is_finish steps))) u v"
      by simp
  qed
  with eq dist all fin show ?thesis by blast
qed

lemma acyclic_increasing: "\<forall>(u, v) \<in> r. u < v \<Longrightarrow> acyclic (r :: (nat \<times> nat) set)"
proof -
  assume "\<forall>(u, v) \<in> r. u < v"
  then have "r \<subseteq> less_than" by auto
  moreover have "acyclic less_than" by (rule wf_acyclic) simp
  ultimately show ?thesis by (rule acyclic_subset[rotated])
qed

text \<open>Witness for C7: the edges \<open>0\<rightarrow>2\<close>, \<open>1\<rightarrow>2\<close>, \<open>2\<rightarrow>3\<close> on four nodes; the final result
  is \<open>[1, 0, 2, 3]\<close>.\<close>

theorem topologicalSort_edges_forward_witness:
  "list_all (\<lambda>(u, v). u < 4 \<and> v < 4) (edges \<lparr>nodes = [0, 1, 2, 3], edges = [(0, 2), (1, 2), (2, 3)]\<rparr>)
   \<and> acyclic (set (edges \<lparr>nodes = [0, 1, 2, 3], edges = [(0, 2), (1, 2), (2, 3)]\<rparr>))
   \<and> map (\<lambda>s. step_result s)
        (filter is_finish (projr (topologicalSort \<lparr>nodes = [0, 1, 2, 3], edges = [(0, 2), (1, 2), (2, 3)]\<rparr>)))
       = [[3], [2, 3], [0, 2, 3], [1, 0, 2, 3]]
   \<and> distinct [1, 0, 2, 3 :: nat]
   \<and> before [1, 0, 2, 3] 0 2 \<and> before [1, 0, 2, 3] 1 2 \<and> before [1, 0, 2, 3] 2 3"
proof -
  let ?g = "\<lparr>nodes = [0, 1, 2, 3], edges = [(0, 2), (1, 2), (2, 3)]\<rparr>"
  have h1: "\<forall>(u, v) \<in> set (edges ?g). u < length (nodes ?g) \<and> v < length (nodes ?g)" by simp
  have h2: "acyclic (set (edges ?g))" by (rule acyclic_increasing) simp
  have ev: "topologicalSort ?g = Inr [VisitT 0 [0] [], VisitT 2 [0, 2] [], VisitT 3 [0, 2, 3] [],
      Finish 3 [0, 2, 3] [3], Finish 2 [0, 2, 3] [2, 3], Finish 0 [0, 2, 3] [0, 2, 3],
      VisitT 1 [0, 2, 3, 1] [0, 2, 3], Finish 1 [0, 2, 3, 1] [1, 0, 2, 3]]"
    by code_simp
  from topologicalSort_edges_forward[OF h1 h2] ev
  have "distinct [1, 0, 2, 3 :: nat]
      \<and> before [1, 0, 2, 3] 0 2 \<and> before [1, 0, 2, 3] 1 2 \<and> before [1, 0, 2, 3] 2 3"
    by (simp add: final_result_def)
  with h2 ev show ?thesis by simp
qed


section \<open>The visited snapshots of the graph traversals\<close>






















section \<open>Pathfinding engine (src/utils/pathfindingAlgorithms.js)\<close>

text \<open>
  A position is the array \<^verbatim>\<open>[row, col]\<close>; \<^verbatim>\<open>JSON.stringify\<close> of it is used as the key of the
  sets and maps, and is one-to-one on pairs of integers, so the pair itself is the key.
  A grid is an array of rows of 0 (open) and 1 (obstacle). A \<^verbatim>\<open>Map\<close> from keys to
  positions is a partial function.
\<close>

type_synonym pos = "int \<times> int"
type_synonym grid = "int list list"

datatype pstep =
    Explore (pstep_position: pos) (pstep_visited: "pos list")
  | Path (pstep_path: "pos list")

text \<open>
  \<^verbatim>\<open>grid[r][c]\<close> for \<open>0 \<le> r < grid.length\<close>: undefined (here \<open>None\<close>) when the row is
  shorter than \<open>c + 1\<close>, and then \<^verbatim>\<open>grid[r][c] === 0\<close> is false.
\<close>

definition cell :: "grid \<Rightarrow> int \<Rightarrow> int \<Rightarrow> int option" where
  "cell grid r c =
     (if 0 \<le> r \<and> r < int (length grid) \<and> 0 \<le> c \<and> c < int (length (grid ! nat r))
      then Some (grid ! nat r ! nat c) else None)"

subsection \<open>bfs\<close>

definition bfs_directions :: "(int \<times> int) list" where
  "bfs_directions = [(-1, 0), (1, 0), (0, -1), (0, 1)]"

type_synonym bfs_state = "pos list \<times> (pos \<rightharpoonup> pos) \<times> pos list"

fun bfs_neighbors ::
  "grid \<Rightarrow> int \<Rightarrow> int \<Rightarrow> pos \<Rightarrow> (int \<times> int) list \<Rightarrow> bfs_state \<Rightarrow> bfs_state" where
  "bfs_neighbors grid rows cols cur [] st = st"
| "bfs_neighbors grid rows cols (row, col) ((dRow, dCol) # ds) (visited, parent, queue) =
     (let newRow = row + dRow; newCol = col + dCol in
      if newRow \<ge> 0 \<and> newRow < rows \<and> newCol \<ge> 0 \<and> newCol < cols \<and>
         cell grid newRow newCol = Some 0 \<and> (newRow, newCol) \<notin> set visited
      then bfs_neighbors grid rows cols (row, col) ds
             (set_add (newRow, newCol) visited,
              parent((newRow, newCol) \<mapsto> (row, col)),
              queue @ [(newRow, newCol)])
      else bfs_neighbors grid rows cols (row, col) ds (visited, parent, queue))"

text \<open>
  The loop \<^verbatim>\<open>while (parent.get(JSON.stringify(current)))\<close> of \<^verbatim>\<open>bfs\<close> and \<^verbatim>\<open>dijkstra\<close>
  that walks the parent pointers back from the end and puts each position in front of
  the path; it has no bound of its own, so not returning is the value \<open>None\<close>.
\<close>

partial_function (option) walk_parents :: "(pos \<rightharpoonup> pos) \<Rightarrow> pos \<Rightarrow> pos list \<Rightarrow> pos list option" where
  "walk_parents parent current path =
     (case parent current of
        None \<Rightarrow> Some path
      | Some p \<Rightarrow> walk_parents parent p (current # path))"

declare walk_parents.simps [code]

definition in_grid :: "int \<Rightarrow> int \<Rightarrow> pos set" where
  "in_grid rows cols = {0..<rows} \<times> {0..<cols}"

lemma finite_in_grid: "finite (in_grid rows cols)"
  by (simp add: in_grid_def)

lemma bfs_neighbors_measure:
  "bfs_neighbors grid rows cols cur ds (visited, parent, queue) = (visited', parent', queue') \<Longrightarrow>
   2 * card (in_grid rows cols - set visited') + length queue'
     \<le> 2 * card (in_grid rows cols - set visited) + length queue"
proof (induction grid rows cols cur ds "(visited, parent, queue)"
    arbitrary: visited parent queue rule: bfs_neighbors.induct)
  case (1 grid rows cols cur)
  then show ?case by simp
next
  case (2 grid rows cols row col dRow dCol ds visited parent queue)
  let ?n = "(row + dRow, col + dCol)"
  show ?case
  proof (cases "row + dRow \<ge> 0 \<and> row + dRow < rows \<and> col + dCol \<ge> 0 \<and> col + dCol < cols \<and>
         cell grid (row + dRow) (col + dCol) = Some 0 \<and> ?n \<notin> set visited")
    case True
    then have "?n \<in> in_grid rows cols - set visited" by (simp add: in_grid_def)
    then have "card (in_grid rows cols - set (set_add ?n visited)) < card (in_grid rows cols - set visited)"
      by (intro psubset_card_mono) (auto simp: set_add_def finite_in_grid)
    moreover have "2 * card (in_grid rows cols - set visited') + length queue'
        \<le> 2 * card (in_grid rows cols - set (set_add ?n visited)) + length (queue @ [?n])"
      using "2.prems" True by (intro "2.hyps"(1)[OF refl refl]) (auto simp: Let_def)
    ultimately show ?thesis by simp
  next
    case False
    then show ?thesis using "2.prems" by (intro "2.hyps"(2)[OF refl refl]) (auto simp: Let_def)
  qed
qed

function bfs_loop ::
  "grid \<Rightarrow> int \<Rightarrow> int \<Rightarrow> pos \<Rightarrow> pos \<Rightarrow> pos list \<Rightarrow> pos list \<Rightarrow> (pos \<rightharpoonup> pos) \<Rightarrow> pstep list
     \<Rightarrow> pstep list option" where
  "bfs_loop grid rows cols startPos endPos queue visited parent steps =
     (case queue of
        [] \<Rightarrow> Some steps
      | (row, col) # queue1 \<Rightarrow>
          let steps1 = steps @ [Explore (row, col) visited] in
          if row = fst endPos \<and> col = snd endPos then
            (case walk_parents parent endPos [] of
               None \<Rightarrow> None
             | Some path \<Rightarrow> Some (steps1 @ [Path (startPos # path)]))
          else
            let (visited1, parent1, queue2) =
                  bfs_neighbors grid rows cols (row, col) bfs_directions (visited, parent, queue1)
            in bfs_loop grid rows cols startPos endPos queue2 visited1 parent1 steps1)"
  by pat_completeness auto
termination
proof (relation "measure (\<lambda>(grid, rows, cols, startPos, endPos, queue, visited, parent, steps).
     2 * card (in_grid rows cols - set visited) + length queue)", goal_cases)
  case 1 show ?case by simp
next
  case (2 grid rows cols startPos endPos queue visited parent steps a queue1 row col steps1 x visited1 y parent1 queue2)
  then have "bfs_neighbors grid rows cols (row, col) bfs_directions (visited, parent, queue1)
      = (visited1, parent1, queue2)" by simp
  from bfs_neighbors_measure[OF this] 2 show ?case by simp
qed

declare bfs_loop.simps [simp del]

text \<open>
  \<^verbatim>\<open>grid[0].length\<close> throws a TypeError on a grid with no row. The results: \<open>None\<close> if the
  walk over the parent pointers did not end, \<open>Some (Inl TypeError)\<close>, \<open>Some (Inr steps)\<close>.
\<close>

definition bfs :: "grid \<Rightarrow> pos \<Rightarrow> pos \<Rightarrow> (error + pstep list) option" where
  "bfs grid startPos endPos =
     (let visited = set_add startPos [];
          queue = [startPos]
      in if grid = [] then Some (Inl TypeError)
         else
           let rows = int (length grid); cols = int (length (grid ! 0)) in
           map_option Inr (bfs_loop grid rows cols startPos endPos queue visited Map.empty []))"


subsection \<open>dijkstra\<close>

text \<open>
  The distances and scores are IEEE 754 doubles, and \<^verbatim>\<open>+\<close> on them rounds. Every finite value
  the two searches compute is 0 or at least 1 (a sum of step costs \<^verbatim>\<open>1\<close> and \<^verbatim>\<open>1.4\<close>, or a
  Manhattan distance between integers), hence a multiple of \<open>2\<^sup>-\<^sup>5\<^sup>2\<close>. Such a double \<open>x\<close> is
  kept as \<open>Finite n\<close> with the integer \<open>n = x * 2\<^sup>5\<^sup>2\<close>. The exact sum of two such doubles is
  again an integer number \<open>n\<close> of units; the double nearest to it keeps the 53 leading bits
  of \<open>n\<close> and rounds the rest to nearest, ties to the even neighbour, and it is \<^verbatim>\<open>Infinity\<close>
  when the rounded value reaches \<open>2\<^sup>1\<^sup>0\<^sup>2\<^sup>4\<close>, that is when it needs more than 1076 bits in
  units. Positions are integers that are JavaScript numbers.
\<close>

datatype float64 = Finite int | Infinity

text \<open>The number of bits of a positive integer.\<close>

function bits :: "int \<Rightarrow> nat" where
  "bits n = (if n \<le> 0 then 0 else Suc (bits (n div 2)))"
  by pat_completeness auto
termination
  by (relation "measure nat") auto

declare bits.simps [simp del]

definition round53 :: "int \<Rightarrow> int" where
  "round53 n =
     (let k = bits n - 53; q = n div 2 ^ k; r = n mod 2 ^ k in
      if 2 * r < 2 ^ k \<or> (2 * r = 2 ^ k \<and> even q) then q * 2 ^ k else (q + 1) * 2 ^ k)"

definition fl :: "int \<Rightarrow> float64" where
  "fl n = (let m = round53 n in if bits m \<le> 1076 then Finite m else Infinity)"

text \<open>\<^verbatim>\<open>x + y\<close> and \<^verbatim>\<open>x < y\<close> on these doubles.\<close>

fun fadd :: "float64 \<Rightarrow> float64 \<Rightarrow> float64" where
  "fadd (Finite a) (Finite b) = fl (a + b)"
| "fadd (Finite a) Infinity = Infinity"
| "fadd Infinity y = Infinity"

fun fless :: "float64 \<Rightarrow> float64 \<Rightarrow> bool" where
  "fless (Finite a) (Finite b) = (a < b)"
| "fless (Finite a) Infinity = True"
| "fless Infinity y = False"

text \<open>
  The direction table with its costs: \<^verbatim>\<open>1\<close> is \<open>2\<^sup>5\<^sup>2 = 4503599627370496\<close> units, and the
  double \<^verbatim>\<open>1.4\<close> (\<^verbatim>\<open>0x3FF6666666666666\<close>) is \<open>6305039478318694\<close> units. The maps \<^verbatim>\<open>distances\<close>,
  \<^verbatim>\<open>gScore\<close> and \<^verbatim>\<open>fScore\<close> are only ever read at the start position and at keys inside
  the grid, which the source initialises, so they are total functions.
\<close>

definition directions8 :: "(int \<times> int \<times> float64) list" where
  "directions8 =
     [(-1, 0, Finite 4503599627370496), (1, 0, Finite 4503599627370496),
      (0, -1, Finite 4503599627370496), (0, 1, Finite 4503599627370496),
      (-1, -1, Finite 6305039478318694), (-1, 1, Finite 6305039478318694),
      (1, -1, Finite 6305039478318694), (1, 1, Finite 6305039478318694)]"

definition all_cells :: "int \<Rightarrow> int \<Rightarrow> pos list" where
  "all_cells rows cols = concat (map (\<lambda>i. map (\<lambda>j. (i, j)) [0..cols - 1]) [0..rows - 1])"

fun find_min :: "pos list \<Rightarrow> (pos \<Rightarrow> float64) \<Rightarrow> pos list \<Rightarrow> pos option \<times> float64 \<Rightarrow> pos option \<times> float64" where
  "find_min visited distances [] (current, minDistance) = (current, minDistance)"
| "find_min visited distances (key # rest) (current, minDistance) =
     (if key \<notin> set visited \<and> fless (distances key) minDistance
      then find_min visited distances rest (Some key, distances key)
      else find_min visited distances rest (current, minDistance))"

fun dijkstra_relax ::
  "grid \<Rightarrow> int \<Rightarrow> int \<Rightarrow> pos \<Rightarrow> (int \<times> int \<times> float64) list \<Rightarrow> (pos \<Rightarrow> float64) \<times> (pos \<rightharpoonup> pos)
     \<Rightarrow> (pos \<Rightarrow> float64) \<times> (pos \<rightharpoonup> pos)" where
  "dijkstra_relax grid rows cols current [] st = st"
| "dijkstra_relax grid rows cols (curRow, curCol) ((dRow, dCol, cost) # ds) (distances, parent) =
     (let newRow = curRow + dRow; newCol = curCol + dCol in
      if newRow \<ge> 0 \<and> newRow < rows \<and> newCol \<ge> 0 \<and> newCol < cols \<and>
         cell grid newRow newCol = Some 0
      then
        let newDist = fadd (distances (curRow, curCol)) cost;
            key = (newRow, newCol)
        in if fless newDist (distances key)
           then dijkstra_relax grid rows cols (curRow, curCol) ds
                  (distances(key := newDist), parent(key \<mapsto> (curRow, curCol)))
           else dijkstra_relax grid rows cols (curRow, curCol) ds (distances, parent)
      else dijkstra_relax grid rows cols (curRow, curCol) ds (distances, parent))"

lemma find_min_unvisited:
  "find_min visited distances cells (c0, m0) = (Some cur, m) \<Longrightarrow>
   c0 = Some cur \<or> cur \<notin> set visited"
  by (induction cells arbitrary: c0 m0) (auto split: if_splits)

function dijkstra_loop ::
  "grid \<Rightarrow> int \<Rightarrow> int \<Rightarrow> pos \<Rightarrow> pos \<Rightarrow> pos list \<Rightarrow> (pos \<Rightarrow> float64) \<Rightarrow> (pos \<rightharpoonup> pos) \<Rightarrow> pstep list
     \<Rightarrow> pstep list option" where
  "dijkstra_loop grid rows cols startPos endPos visited distances parent steps =
     (if int (length visited) < rows * cols then
        let (current, minDistance) = find_min visited distances (all_cells rows cols) (None, Infinity) in
        (case current of
           None \<Rightarrow> Some steps
         | Some cur \<Rightarrow>
             if minDistance = Infinity then Some steps
             else
               let visited1 = set_add cur visited;
                   steps1 = steps @ [Explore cur visited1]
               in if fst cur = fst endPos \<and> snd cur = snd endPos then
                    (case walk_parents parent endPos [] of
                       None \<Rightarrow> None
                     | Some path \<Rightarrow> Some (steps1 @ [Path (startPos # path)]))
                  else
                    let (distances1, parent1) =
                          dijkstra_relax grid rows cols cur directions8 (distances, parent)
                    in dijkstra_loop grid rows cols startPos endPos visited1 distances1 parent1 steps1)
      else Some steps)"
  by pat_completeness auto
termination
proof (relation "measure (\<lambda>(grid, rows, cols, startPos, endPos, visited, distances, parent, steps).
     nat (rows * cols) - length visited)", goal_cases)
  case 1 show ?case by simp
next
  case (2 grid rows cols startPos endPos visited distances parent steps x current minDistance cur
      visited1 steps1 y distances1 parent1)
  then have "find_min visited distances (all_cells rows cols) (None, Infinity) = (Some cur, minDistance)"
    by simp
  from find_min_unvisited[OF this] have "cur \<notin> set visited" by simp
  with 2 show ?case by (simp add: set_add_def)
qed

declare dijkstra_loop.simps [simp del]

definition dijkstra :: "grid \<Rightarrow> pos \<Rightarrow> pos \<Rightarrow> (error + pstep list) option" where
  "dijkstra grid startPos endPos =
     (if grid = [] then Some (Inl TypeError)
      else
        let rows = int (length grid); cols = int (length (grid ! 0));
            distances = (\<lambda>key. Infinity)(startPos := Finite 0)
        in map_option Inr (dijkstra_loop grid rows cols startPos endPos [] distances Map.empty []))"

subsection \<open>aStar\<close>

text \<open>
  \<^verbatim>\<open>Math.abs(a - b)\<close> for integers \<open>a\<close> and \<open>b\<close>: the exact difference, rounded. The Manhattan
  distance \<^verbatim>\<open>heuristic\<close> is the rounded sum of two of them.
\<close>

definition fabsdiff :: "int \<Rightarrow> int \<Rightarrow> float64" where
  "fabsdiff a b = fl (\<bar>a - b\<bar> * 2 ^ 52)"

definition heuristic :: "pos \<Rightarrow> pos \<Rightarrow> float64" where
  "heuristic endPos pos =
     fadd (fabsdiff (fst pos) (fst endPos)) (fabsdiff (snd pos) (snd endPos))"

text \<open>The scan \<^verbatim>\<open>for (let i = 1; i < openSet.length; i++)\<close> for the lowest \<^verbatim>\<open>fScore\<close>.\<close>

fun astar_lowest :: "(pos \<Rightarrow> float64) \<Rightarrow> pos list \<Rightarrow> nat \<Rightarrow> pos \<times> nat \<times> float64 \<Rightarrow> pos \<times> nat \<times> float64" where
  "astar_lowest fScore [] i (current, currentIndex, lowestF) = (current, currentIndex, lowestF)"
| "astar_lowest fScore (p # rest) i (current, currentIndex, lowestF) =
     (let f = fScore p in
      if fless f lowestF then astar_lowest fScore rest (i + 1) (p, i, f)
      else astar_lowest fScore rest (i + 1) (current, currentIndex, lowestF))"

type_synonym astar_state = "(pos \<rightharpoonup> pos) \<times> (pos \<Rightarrow> float64) \<times> (pos \<Rightarrow> float64) \<times> pos list"

fun astar_neighbors ::
  "grid \<Rightarrow> int \<Rightarrow> int \<Rightarrow> pos \<Rightarrow> pos list \<Rightarrow> pos \<Rightarrow> (int \<times> int \<times> float64) list \<Rightarrow> astar_state \<Rightarrow> astar_state" where
  "astar_neighbors grid rows cols endPos visited current [] st = st"
| "astar_neighbors grid rows cols endPos visited (curRow, curCol) ((dRow, dCol, cost) # ds)
     (parent, gScore, fScore, openSet) =
     (let newRow = curRow + dRow; newCol = curCol + dCol in
      if newRow \<ge> 0 \<and> newRow < rows \<and> newCol \<ge> 0 \<and> newCol < cols \<and>
         cell grid newRow newCol = Some 0 \<and> (newRow, newCol) \<notin> set visited
      then
        let neighbor = (newRow, newCol);
            tentativeGScore = fadd (gScore (curRow, curCol)) cost
        in if fless tentativeGScore (gScore neighbor)
           then
             let parent1 = parent(neighbor \<mapsto> (curRow, curCol));
                 gScore1 = gScore(neighbor := tentativeGScore);
                 f = fadd tentativeGScore (heuristic endPos neighbor);
                 fScore1 = fScore(neighbor := f);
                 openSet1 = (if neighbor \<notin> set openSet then openSet @ [neighbor] else openSet)
             in astar_neighbors grid rows cols endPos visited (curRow, curCol) ds
                  (parent1, gScore1, fScore1, openSet1)
           else astar_neighbors grid rows cols endPos visited (curRow, curCol) ds
                  (parent, gScore, fScore, openSet)
      else astar_neighbors grid rows cols endPos visited (curRow, curCol) ds
             (parent, gScore, fScore, openSet))"

text \<open>The walk of \<^verbatim>\<open>aStar\<close> starts from \<^verbatim>\<open>[endPos]\<close> and puts each parent in front.\<close>

partial_function (option) astar_walk :: "(pos \<rightharpoonup> pos) \<Rightarrow> pos \<Rightarrow> pos list \<Rightarrow> pos list option" where
  "astar_walk parent pos path =
     (case parent pos of
        None \<Rightarrow> Some path
      | Some p \<Rightarrow> astar_walk parent p (p # path))"

declare astar_walk.simps [code]

lemma astar_lowest_index:
  "astar_lowest fScore rest i (c0, i0, f0) = (current, currentIndex, lowestF) \<Longrightarrow>
   i0 < i \<Longrightarrow> currentIndex < i + length rest"
  by (induction rest arbitrary: i c0 i0 f0) (fastforce simp: Let_def split: if_splits)+

lemma astar_lowest_current:
  "astar_lowest fScore rest i (c0, i0, f0) = (current, currentIndex, lowestF) \<Longrightarrow>
   i0 < i \<Longrightarrow> (pre @ rest) ! i0 = c0 \<Longrightarrow> length pre = i \<Longrightarrow> (pre @ rest) ! currentIndex = current"
proof (induction rest arbitrary: i c0 i0 f0 pre)
  case Nil
  then show ?case by simp
next
  case (Cons p rest)
  show ?case
  proof (cases "fless (fScore p) f0")
    case True
    with Cons.prems(1) have r: "astar_lowest fScore rest (i + 1) (p, i, fScore p) = (current, currentIndex, lowestF)"
      by (simp add: Let_def)
    from Cons.IH[OF r, of "pre @ [p]"] Cons.prems show ?thesis by (simp add: nth_append)
  next
    case False
    with Cons.prems(1) have r: "astar_lowest fScore rest (i + 1) (c0, i0, f0) = (current, currentIndex, lowestF)"
      by (simp add: Let_def)
    from Cons.IH[OF r, of "pre @ [p]"] Cons.prems show ?thesis by (simp add: nth_append)
  qed
qed

lemma astar_neighbors_measure:
  "astar_neighbors grid rows cols endPos visited cur ds (parent, gScore, fScore, openSet)
     = (parent', gScore', fScore', openSet') \<Longrightarrow>
   2 * card (in_grid rows cols - set visited - set openSet') + length openSet'
     \<le> 2 * card (in_grid rows cols - set visited - set openSet) + length openSet"
proof (induction grid rows cols endPos visited cur ds "(parent, gScore, fScore, openSet)"
    arbitrary: parent gScore fScore openSet rule: astar_neighbors.induct)
  case (1 grid rows cols endPos visited current)
  then show ?case by simp
next
  case (2 grid rows cols endPos visited curRow curCol dRow dCol cost ds parent gScore fScore openSet)
  let ?n = "(curRow + dRow, curCol + dCol)"
  let ?t = "fadd (gScore (curRow, curCol)) cost"
  let ?ok = "curRow + dRow \<ge> 0 \<and> curRow + dRow < rows \<and> curCol + dCol \<ge> 0 \<and> curCol + dCol < cols \<and>
         cell grid (curRow + dRow) (curCol + dCol) = Some 0 \<and> ?n \<notin> set visited"
  show ?case
  proof (cases "?ok \<and> fless ?t (gScore ?n)")
    case True
    let ?o1 = "(if ?n \<notin> set openSet then openSet @ [?n] else openSet)"
    have r: "astar_neighbors grid rows cols endPos visited (curRow, curCol) ds
        (parent(?n \<mapsto> (curRow, curCol)), gScore(?n := ?t), fScore(?n := fadd ?t (heuristic endPos ?n)), ?o1)
        = (parent', gScore', fScore', openSet')"
      using "2.prems" True by (simp add: Let_def)
    have ih: "2 * card (in_grid rows cols - set visited - set openSet') + length openSet'
        \<le> 2 * card (in_grid rows cols - set visited - set ?o1) + length ?o1"
      using True by (intro "2.hyps"(1)[OF refl refl _ refl refl _ refl refl refl refl refl r]) auto
    have "2 * card (in_grid rows cols - set visited - set ?o1) + length ?o1
        \<le> 2 * card (in_grid rows cols - set visited - set openSet) + length openSet"
    proof (cases "?n \<in> set openSet")
      case True
      then show ?thesis by simp
    next
      case False
      with True have "?n \<in> in_grid rows cols - set visited - set openSet" by (simp add: in_grid_def)
      then have "card (in_grid rows cols - set visited - set (openSet @ [?n]))
          < card (in_grid rows cols - set visited - set openSet)"
        by (intro psubset_card_mono) (auto simp: finite_in_grid)
      with False show ?thesis by simp
    qed
    with ih show ?thesis by simp
  next
    case False
    then have r: "astar_neighbors grid rows cols endPos visited (curRow, curCol) ds
        (parent, gScore, fScore, openSet) = (parent', gScore', fScore', openSet')"
      using "2.prems" by (auto simp: Let_def split: if_splits)
    show ?thesis
    proof (cases ?ok)
      case True
      with False have "\<not> fless ?t (gScore ?n)" by simp
      with True show ?thesis by (intro "2.hyps"(2)[OF refl refl _ refl refl _ r]) auto
    next
      case False
      then show ?thesis by (intro "2.hyps"(3)[OF refl refl _ r]) auto
    qed
  qed
qed

lemma set_remove_nth:
  assumes "i < length xs"
  shows "set xs = insert (xs ! i) (set (take i xs @ drop (i + 1) xs))"
proof -
  have "set xs = set (take i xs) \<union> set (drop i xs)"
    by (metis append_take_drop_id set_append)
  also have "drop i xs = xs ! i # drop (Suc i) xs"
    using assms by (simp add: Cons_nth_drop_Suc)
  finally show ?thesis by auto
qed

function astar_loop ::
  "grid \<Rightarrow> int \<Rightarrow> int \<Rightarrow> pos \<Rightarrow> pos list \<Rightarrow> pos list \<Rightarrow> (pos \<Rightarrow> float64) \<Rightarrow> (pos \<Rightarrow> float64) \<Rightarrow> (pos \<rightharpoonup> pos)
     \<Rightarrow> pstep list \<Rightarrow> pstep list option" where
  "astar_loop grid rows cols endPos openSet visited gScore fScore parent steps =
     (case openSet of
        [] \<Rightarrow> Some steps
      | first # others \<Rightarrow>
          let (current, currentIndex, lowestF) = astar_lowest fScore others 1 (first, 0, fScore first) in
          if fst current = fst endPos \<and> snd current = snd endPos then
            (case astar_walk parent endPos [endPos] of
               None \<Rightarrow> None
             | Some path \<Rightarrow> Some (steps @ [Path path]))
          else
            let openSet1 = take currentIndex openSet @ drop (currentIndex + 1) openSet;
                visited1 = set_add current visited;
                steps1 = steps @ [Explore current visited1];
                (parent1, gScore1, fScore1, openSet2) =
                  astar_neighbors grid rows cols endPos visited1 current directions8
                    (parent, gScore, fScore, openSet1)
            in astar_loop grid rows cols endPos openSet2 visited1 gScore1 fScore1 parent1 steps1)"
  by pat_completeness auto
termination
proof (relation "measure (\<lambda>(grid, rows, cols, endPos, openSet, visited, gScore, fScore, parent, steps).
     2 * card (in_grid rows cols - set visited - set openSet) + length openSet)", goal_cases)
  case 1 show ?case by simp
next
  case (2 grid rows cols endPos openSet visited gScore fScore parent steps first others x current y
      currentIndex lowestF openSet1 visited1 steps1 z parent1 w gScore1 v fScore1 openSet2)
  have low: "astar_lowest fScore others 1 (first, 0, fScore first) = (current, currentIndex, lowestF)"
    using 2 by simp
  from astar_lowest_index[OF low] have idx: "currentIndex < length openSet" using 2 by simp
  from astar_lowest_current[OF low, of "[first]"] have cur: "openSet ! currentIndex = current"
    using 2 by simp
  have len1: "length openSet1 + 1 = length openSet" using 2 idx by simp
  have "set openSet \<subseteq> insert current (set openSet1)"
    using set_remove_nth[OF idx] cur 2 by simp
  then have "in_grid rows cols - set visited1 - set openSet1 \<subseteq> in_grid rows cols - set visited - set openSet"
    using 2 by (auto simp: set_add_def split: if_splits)
  then have c: "card (in_grid rows cols - set visited1 - set openSet1)
      \<le> card (in_grid rows cols - set visited - set openSet)"
    by (intro card_mono) (auto simp: finite_in_grid)
  have "astar_neighbors grid rows cols endPos visited1 current directions8 (parent, gScore, fScore, openSet1)
      = (parent1, gScore1, fScore1, openSet2)" using 2 by simp
  from astar_neighbors_measure[OF this] c len1 show ?case by simp
qed

declare astar_loop.simps [simp del]

definition aStar :: "grid \<Rightarrow> pos \<Rightarrow> pos \<Rightarrow> (error + pstep list) option" where
  "aStar grid startPos endPos =
     (let openSet = [startPos] in
      if grid = [] then Some (Inl TypeError)
      else
        let rows = int (length grid); cols = int (length (grid ! 0));
            gScore = (\<lambda>key. Infinity)(startPos := Finite 0);
            fScore = (\<lambda>key. Infinity)(startPos := heuristic endPos startPos)
        in map_option Inr (astar_loop grid rows cols endPos openSet [] gScore fScore Map.empty []))"



subsection \<open>Rounding at work\<close>

text \<open>
  From 0, the sum \<^verbatim>\<open>1.4 + 1 + 1 + 1.4 + 1\<close> is the double 5.8 and \<^verbatim>\<open>1.4 + 1 + 1 + 1 + 1.4\<close> is
  the next double above it. On the grid below \<^verbatim>\<open>dijkstra\<close> therefore reaches the end \<open>(0, 5)\<close>
  from \<open>(1, 4)\<close> first and then gives it the parent \<open>(0, 4)\<close>.
\<close>

lemma rounding_example:
  "fadd (fadd (fadd (fadd (fadd (Finite 0) (Finite 6305039478318694)) (Finite 4503599627370496))
      (Finite 4503599627370496)) (Finite 6305039478318694)) (Finite 4503599627370496)
     = Finite 26120877838748876"
  "fadd (fadd (fadd (fadd (fadd (Finite 0) (Finite 6305039478318694)) (Finite 4503599627370496))
      (Finite 4503599627370496)) (Finite 4503599627370496)) (Finite 6305039478318694)
     = Finite 26120877838748880"
  by code_simp+

lemma dijkstra_rounding_example:
  "dijkstra [[0, 1, 1, 1, 0, 0], [1, 0, 0, 0, 0, 1]] (0, 0) (0, 5) =
     Some (Inr [Explore (0, 0) [(0, 0)], Explore (1, 1) [(0, 0), (1, 1)],
        Explore (1, 2) [(0, 0), (1, 1), (1, 2)], Explore (1, 3) [(0, 0), (1, 1), (1, 2), (1, 3)],
        Explore (1, 4) [(0, 0), (1, 1), (1, 2), (1, 3), (1, 4)],
        Explore (0, 4) [(0, 0), (1, 1), (1, 2), (1, 3), (1, 4), (0, 4)],
        Explore (0, 5) [(0, 0), (1, 1), (1, 2), (1, 3), (1, 4), (0, 4), (0, 5)],
        Path [(0, 0), (1, 1), (1, 2), (1, 3), (0, 4), (0, 5)]])"
  by code_simp


section \<open>Where the path step stands\<close>






lemma bfs_loop_Nil: "bfs_loop grid rows cols s e [] visited parent steps = Some steps"
  by (simp add: bfs_loop.simps[of _ _ _ _ _ "[]"])

lemma bfs_loop_end:
  assumes "row = fst e \<and> col = snd e"
  shows "bfs_loop grid rows cols s e ((row, col) # queue1) visited parent steps =
     (case walk_parents parent e [] of
        None \<Rightarrow> None
      | Some path \<Rightarrow> Some ((steps @ [Explore (row, col) visited]) @ [Path (s # path)]))"
proof -
  have c: "(if row = fst e \<and> col = snd e then A else B) = A" for A B :: "pstep list option"
    using assms by (rule if_P)
  show ?thesis by (subst bfs_loop.simps) (simp add: Let_def c)
qed

lemma bfs_loop_step:
  assumes "\<not> (row = fst e \<and> col = snd e)"
    and "bfs_neighbors grid rows cols (row, col) bfs_directions (visited, parent, queue1)
     = (visited1, parent1, queue2)"
  shows "bfs_loop grid rows cols s e ((row, col) # queue1) visited parent steps =
     bfs_loop grid rows cols s e queue2 visited1 parent1 (steps @ [Explore (row, col) visited])"
proof -
  have c: "(if row = fst e \<and> col = snd e then A else B) = B" for A B :: "pstep list option"
    using assms(1) by (rule if_not_P)
  show ?thesis by (subst bfs_loop.simps) (simp add: Let_def c assms(2))
qed


subsection \<open>Invariant rules for the three loops\<close>


lemma bfs_loop_total:
  assumes init: "I queue visited parent steps"
    and step: "\<And>row col queue1 visited parent steps visited1 parent1 queue2.
      I ((row, col) # queue1) visited parent steps \<Longrightarrow> \<not> (row = fst e \<and> col = snd e) \<Longrightarrow>
      bfs_neighbors grid rows cols (row, col) bfs_directions (visited, parent, queue1)
        = (visited1, parent1, queue2) \<Longrightarrow>
      I queue2 visited1 parent1 (steps @ [Explore (row, col) visited])"
    and empty: "\<And>visited parent steps. I [] visited parent steps \<Longrightarrow> Q steps"
    and final: "\<And>queue1 visited parent steps.
      I (e # queue1) visited parent steps \<Longrightarrow>
      \<exists>path. walk_parents parent e [] = Some path \<and>
        Q ((steps @ [Explore e visited]) @ [Path (s # path)])"
  shows "\<exists>out. bfs_loop grid rows cols s e queue visited parent steps = Some out \<and> Q out"
  using assms
proof (induction grid rows cols s e queue visited parent steps rule: bfs_loop.induct)
  case (1 grid rows cols s e queue visited parent steps)
  note init = "1.prems"(1) and step = "1.prems"(2) and empty = "1.prems"(3) and final = "1.prems"(4)
  show ?case
  proof (cases queue)
    case Nil
    with init empty show ?thesis by (simp add: bfs_loop_Nil)
  next
    case (Cons a queue1)
    obtain row col where a: "a = (row, col)" by (cases a) auto
    show ?thesis
    proof (cases "row = fst e \<and> col = snd e")
      case True
      then have e: "(row, col) = e" by auto
      from final[of queue1 visited parent steps] init obtain path where
        "walk_parents parent e [] = Some path"
        "Q ((steps @ [Explore e visited]) @ [Path (s # path)])"
        unfolding Cons a e by blast
      moreover have "bfs_loop grid rows cols s e queue visited parent steps =
         (case walk_parents parent e [] of
            None \<Rightarrow> None
          | Some path \<Rightarrow> Some ((steps @ [Explore (row, col) visited]) @ [Path (s # path)]))"
        unfolding Cons a by (rule bfs_loop_end[OF True])
      ultimately show ?thesis unfolding e by simp
    next
      case False
      obtain visited1 parent1 queue2 where
        nb: "bfs_neighbors grid rows cols (row, col) bfs_directions (visited, parent, queue1)
              = (visited1, parent1, queue2)" by (metis prod.exhaust)
      have i: "I queue2 visited1 parent1 (steps @ [Explore (row, col) visited])"
        using step[OF _ False nb] init unfolding Cons a by simp
      from "1.IH"[OF Cons a[symmetric] refl False nb[symmetric] refl refl i step empty final]
      show ?thesis unfolding Cons a by (simp add: bfs_loop_step[OF False nb])
    qed
  qed
qed


lemma dijkstra_loop_stop:
  assumes "\<not> int (length visited) < rows * cols
     \<or> fst (find_min visited distances (all_cells rows cols) (None, Infinity)) = None
     \<or> snd (find_min visited distances (all_cells rows cols) (None, Infinity)) = Infinity"
  shows "dijkstra_loop grid rows cols s e visited distances parent steps = Some steps"
  using assms
  by (subst dijkstra_loop.simps) (auto simp: Let_def split: prod.splits option.splits)

lemma dijkstra_loop_end:
  assumes "int (length visited) < rows * cols"
    and "find_min visited distances (all_cells rows cols) (None, Infinity) = (Some cur, m)"
    and "m \<noteq> Infinity" and "fst cur = fst e \<and> snd cur = snd e"
  shows "dijkstra_loop grid rows cols s e visited distances parent steps =
     (case walk_parents parent e [] of
        None \<Rightarrow> None
      | Some path \<Rightarrow> Some ((steps @ [Explore cur (set_add cur visited)]) @ [Path (s # path)]))"
proof -
  have c: "(if fst cur = fst e \<and> snd cur = snd e then A else B) = A" for A B :: "pstep list option"
    using assms(4) by (rule if_P)
  have d: "(if m = Infinity then A else B) = B" for A B :: "pstep list option"
    using assms(3) by (rule if_not_P)
  show ?thesis using assms(1,2) by (subst dijkstra_loop.simps) (simp add: Let_def c d)
qed

lemma dijkstra_loop_step:
  assumes "int (length visited) < rows * cols"
    and "find_min visited distances (all_cells rows cols) (None, Infinity) = (Some cur, m)"
    and "m \<noteq> Infinity" and "\<not> (fst cur = fst e \<and> snd cur = snd e)"
    and "dijkstra_relax grid rows cols cur directions8 (distances, parent) = (d1, p1)"
  shows "dijkstra_loop grid rows cols s e visited distances parent steps =
     dijkstra_loop grid rows cols s e (set_add cur visited) d1 p1
       (steps @ [Explore cur (set_add cur visited)])"
proof -
  have c: "(if fst cur = fst e \<and> snd cur = snd e then A else B) = B" for A B :: "pstep list option"
    using assms(4) by (rule if_not_P)
  have d: "(if m = Infinity then A else B) = B" for A B :: "pstep list option"
    using assms(3) by (rule if_not_P)
  show ?thesis using assms(1,2,5) by (subst dijkstra_loop.simps) (simp add: Let_def c d)
qed


lemma dijkstra_loop_total:
  assumes init: "I visited distances parent steps"
    and step: "\<And>visited distances parent steps cur m d1 p1.
      I visited distances parent steps \<Longrightarrow> int (length visited) < rows * cols \<Longrightarrow>
      find_min visited distances (all_cells rows cols) (None, Infinity) = (Some cur, m) \<Longrightarrow> m \<noteq> Infinity \<Longrightarrow>
      \<not> (fst cur = fst e \<and> snd cur = snd e) \<Longrightarrow>
      dijkstra_relax grid rows cols cur directions8 (distances, parent) = (d1, p1) \<Longrightarrow>
      I (set_add cur visited) d1 p1 (steps @ [Explore cur (set_add cur visited)])"
    and stop: "\<And>visited distances parent steps. I visited distances parent steps \<Longrightarrow>
      \<not> int (length visited) < rows * cols
       \<or> fst (find_min visited distances (all_cells rows cols) (None, Infinity)) = None
       \<or> snd (find_min visited distances (all_cells rows cols) (None, Infinity)) = Infinity \<Longrightarrow> Q steps"
    and final: "\<And>visited distances parent steps m.
      I visited distances parent steps \<Longrightarrow> int (length visited) < rows * cols \<Longrightarrow>
      find_min visited distances (all_cells rows cols) (None, Infinity) = (Some e, m) \<Longrightarrow> m \<noteq> Infinity \<Longrightarrow>
      \<exists>path. walk_parents parent e [] = Some path \<and>
        Q ((steps @ [Explore e (set_add e visited)]) @ [Path (s # path)])"
  shows "\<exists>out. dijkstra_loop grid rows cols s e visited distances parent steps = Some out \<and> Q out"
  using assms
proof (induction grid rows cols s e visited distances parent steps rule: dijkstra_loop.induct)
  case (1 grid rows cols s e visited distances parent steps)
  note init = "1.prems"(1) and step = "1.prems"(2) and stop = "1.prems"(3) and final = "1.prems"(4)
  let ?fm = "find_min visited distances (all_cells rows cols) (None, Infinity)"
  show ?case
  proof (cases "\<not> int (length visited) < rows * cols \<or> fst ?fm = None \<or> snd ?fm = Infinity")
    case True
    from stop[OF init True] show ?thesis unfolding dijkstra_loop_stop[OF True] by simp
  next
    case False
    then obtain cur m where lt: "int (length visited) < rows * cols"
      and fm: "?fm = (Some cur, m)" and m: "m \<noteq> Infinity"
      by (cases ?fm) auto
    show ?thesis
    proof (cases "fst cur = fst e \<and> snd cur = snd e")
      case True
      then have e: "cur = e" by (auto simp: prod_eq_iff)
      from final[OF init lt fm[unfolded e] m] show ?thesis
        unfolding dijkstra_loop_end[OF lt fm m True] e by auto
    next
      case False
      obtain d1 p1 where rl: "dijkstra_relax grid rows cols cur directions8 (distances, parent) = (d1, p1)"
        by (metis prod.exhaust)
      have i: "I (set_add cur visited) d1 p1 (steps @ [Explore cur (set_add cur visited)])"
        by (rule step[OF init lt fm m False rl])
      from "1.IH"[OF lt fm[symmetric] refl refl m refl refl False rl[symmetric] refl i step stop final]
      show ?thesis unfolding dijkstra_loop_step[OF lt fm m False rl] .
    qed
  qed
qed


lemma astar_loop_Nil:
  "astar_loop grid rows cols e [] visited gScore fScore parent steps = Some steps"
  by (simp add: astar_loop.simps[of _ _ _ _ "[]"])

lemma astar_loop_end:
  assumes "astar_lowest fScore others 1 (first, 0, fScore first) = (current, idx, lowF)"
    and "fst current = fst e \<and> snd current = snd e"
  shows "astar_loop grid rows cols e (first # others) visited gScore fScore parent steps =
     (case astar_walk parent e [e] of
        None \<Rightarrow> None
      | Some path \<Rightarrow> Some (steps @ [Path path]))"
proof -
  have c: "(if fst current = fst e \<and> snd current = snd e then A else B) = A"
    for A B :: "pstep list option" using assms(2) by (rule if_P)
  show ?thesis using assms(1) by (subst astar_loop.simps) (simp add: Let_def c)
qed

lemma astar_loop_step:
  assumes "astar_lowest fScore others 1 (first, 0, fScore first) = (current, idx, lowF)"
    and "\<not> (fst current = fst e \<and> snd current = snd e)"
    and "astar_neighbors grid rows cols e (set_add current visited) current directions8
           (parent, gScore, fScore, take idx (first # others) @ drop (idx + 1) (first # others))
         = (parent1, gScore1, fScore1, openSet2)"
  shows "astar_loop grid rows cols e (first # others) visited gScore fScore parent steps =
     astar_loop grid rows cols e openSet2 (set_add current visited) gScore1 fScore1 parent1
       (steps @ [Explore current (set_add current visited)])"
proof -
  have c: "(if fst current = fst e \<and> snd current = snd e then A else B) = B"
    for A B :: "pstep list option" using assms(2) by (rule if_not_P)
  show ?thesis using assms(1,3) by (subst astar_loop.simps) (simp add: Let_def c)
qed


lemma astar_loop_total:
  assumes init: "I openSet visited gScore fScore parent steps"
    and step: "\<And>first others visited gScore fScore parent steps current idx lowF
        parent1 gScore1 fScore1 openSet2.
      I (first # others) visited gScore fScore parent steps \<Longrightarrow>
      astar_lowest fScore others 1 (first, 0, fScore first) = (current, idx, lowF) \<Longrightarrow>
      \<not> (fst current = fst e \<and> snd current = snd e) \<Longrightarrow>
      astar_neighbors grid rows cols e (set_add current visited) current directions8
           (parent, gScore, fScore, take idx (first # others) @ drop (idx + 1) (first # others))
         = (parent1, gScore1, fScore1, openSet2) \<Longrightarrow>
      I openSet2 (set_add current visited) gScore1 fScore1 parent1
        (steps @ [Explore current (set_add current visited)])"
    and empty: "\<And>visited gScore fScore parent steps. I [] visited gScore fScore parent steps \<Longrightarrow> Q steps"
    and final: "\<And>first others visited gScore fScore parent steps idx lowF.
      I (first # others) visited gScore fScore parent steps \<Longrightarrow>
      astar_lowest fScore others 1 (first, 0, fScore first) = (e, idx, lowF) \<Longrightarrow>
      \<exists>path. astar_walk parent e [e] = Some path \<and> Q (steps @ [Path path])"
  shows "\<exists>out. astar_loop grid rows cols e openSet visited gScore fScore parent steps = Some out \<and> Q out"
  using assms
proof (induction grid rows cols e openSet visited gScore fScore parent steps rule: astar_loop.induct)
  case (1 grid rows cols e openSet visited gScore fScore parent steps)
  note init = "1.prems"(1) and step = "1.prems"(2) and empty = "1.prems"(3) and final = "1.prems"(4)
  show ?case
  proof (cases openSet)
    case Nil
    with init empty show ?thesis by (simp add: astar_loop_Nil)
  next
    case (Cons first others)
    obtain current idx lowF where
      low: "astar_lowest fScore others 1 (first, 0, fScore first) = (current, idx, lowF)"
      by (metis prod.exhaust)
    show ?thesis
    proof (cases "fst current = fst e \<and> snd current = snd e")
      case True
      then have e: "current = e" by (auto simp: prod_eq_iff)
      from final[OF init[unfolded Cons] low[unfolded e]] show ?thesis
        unfolding Cons astar_loop_end[OF low True] by auto
    next
      case False
      obtain parent1 gScore1 fScore1 openSet2 where
        nb: "astar_neighbors grid rows cols e (set_add current visited) current directions8
           (parent, gScore, fScore, take idx (first # others) @ drop (idx + 1) (first # others))
         = (parent1, gScore1, fScore1, openSet2)" by (metis prod.exhaust)
      have i: "I openSet2 (set_add current visited) gScore1 fScore1 parent1
          (steps @ [Explore current (set_add current visited)])"
        by (rule step[OF init[unfolded Cons] low False nb])
      from "1.IH"[OF Cons low[symmetric] refl refl False refl refl refl
              nb[unfolded Cons[symmetric], symmetric] refl refl refl i step empty final]
      show ?thesis unfolding Cons astar_loop_step[OF low False nb] .
    qed
  qed
qed










section \<open>The visited snapshots\<close>


























section \<open>Paths on the grid\<close>

text \<open>
  A cell is open when it lies in the grid and holds 0. Two cells are neighbours in the
  4-directional sense when they differ by one step up, down, left or right, and in the
  8-directional sense when they differ by one step in any direction, diagonals included.
  A walk is a list of cells in which every cell after the first is open and a neighbour
  of the cell before it; the first cell is where the search starts, open or not.
\<close>

definition open_cell :: "grid \<Rightarrow> pos \<Rightarrow> bool" where
  "open_cell grid p \<longleftrightarrow> cell grid (fst p) (snd p) = Some 0"

definition adj4 :: "pos \<Rightarrow> pos \<Rightarrow> bool" where
  "adj4 p q \<longleftrightarrow> \<bar>fst q - fst p\<bar> + \<bar>snd q - snd p\<bar> = 1"

definition adj8 :: "pos \<Rightarrow> pos \<Rightarrow> bool" where
  "adj8 p q \<longleftrightarrow> p \<noteq> q \<and> \<bar>fst q - fst p\<bar> \<le> 1 \<and> \<bar>snd q - snd p\<bar> \<le> 1"

fun walk :: "(pos \<Rightarrow> pos \<Rightarrow> bool) \<Rightarrow> grid \<Rightarrow> pos list \<Rightarrow> bool" where
  "walk adj grid (p # q # r) = (adj p q \<and> open_cell grid q \<and> walk adj grid (q # r))"
| "walk adj grid [p] = True"
| "walk adj grid [] = True"

definition joins :: "pos list \<Rightarrow> pos \<Rightarrow> pos \<Rightarrow> bool" where
  "joins path s e \<longleftrightarrow> path \<noteq> [] \<and> hd path = s \<and> last path = e"

definition reachable :: "(pos \<Rightarrow> pos \<Rightarrow> bool) \<Rightarrow> grid \<Rightarrow> pos \<Rightarrow> pos \<Rightarrow> bool" where
  "reachable adj grid s e \<longleftrightarrow> (\<exists>path. joins path s e \<and> walk adj grid path)"

fun is_explore :: "pstep \<Rightarrow> bool" where
  "is_explore (Explore _ _) = True"
| "is_explore _ = False"

lemma walk_snoc:
  "walk adj grid path \<Longrightarrow> path \<noteq> [] \<Longrightarrow> adj (last path) q \<Longrightarrow> open_cell grid q \<Longrightarrow>
   walk adj grid (path @ [q])"
  by (induction adj grid path rule: walk.induct) auto

lemma reachable_refl: "reachable adj grid s s"
  unfolding reachable_def joins_def by (rule exI[of _ "[s]"]) simp

lemma reachable_step:
  assumes "reachable adj grid s c" and "adj c q" and "open_cell grid q"
  shows "reachable adj grid s q"
proof -
  from assms(1) obtain path where p: "path \<noteq> []" "hd path = s" "last path = c" "walk adj grid path"
    unfolding reachable_def joins_def by blast
  from walk_snoc[OF p(4) p(1)] assms(2,3) p(3) have "walk adj grid (path @ [q])" by simp
  moreover from p have "joins (path @ [q]) s q" by (simp add: joins_def)
  ultimately show ?thesis unfolding reachable_def by blast
qed

lemma bfs_directions_adj4: "(dRow, dCol) \<in> set bfs_directions \<Longrightarrow> adj4 (row, col) (row + dRow, col + dCol)"
  by (auto simp: bfs_directions_def adj4_def)

lemma directions8_adj8:
  "(dRow, dCol, cost) \<in> set directions8 \<Longrightarrow> adj8 (row, col) (row + dRow, col + dCol)"
  by (auto simp: directions8_def adj8_def)


section \<open>No path step when the end cannot be reached\<close>

lemma bfs_neighbors_reach:
  "bfs_neighbors grid rows cols cur ds (visited, parent, queue) = (visited', parent', queue') \<Longrightarrow>
   reachable adj4 grid s cur \<Longrightarrow> set ds \<subseteq> set bfs_directions \<Longrightarrow>
   \<forall>c \<in> set queue. reachable adj4 grid s c \<Longrightarrow> \<forall>c \<in> set queue'. reachable adj4 grid s c"
proof (induction grid rows cols cur ds "(visited, parent, queue)"
    arbitrary: visited parent queue rule: bfs_neighbors.induct)
  case (1 grid rows cols cur)
  then show ?case by simp
next
  case (2 grid rows cols row col dRow dCol ds visited parent queue)
  let ?n = "(row + dRow, col + dCol)"
  show ?case
  proof (cases "row + dRow \<ge> 0 \<and> row + dRow < rows \<and> col + dCol \<ge> 0 \<and> col + dCol < cols \<and>
         cell grid (row + dRow) (col + dCol) = Some 0 \<and> ?n \<notin> set visited")
    case True
    have "adj4 (row, col) ?n" using "2.prems"(3) by (intro bfs_directions_adj4) simp
    moreover have "open_cell grid ?n" using True by (simp add: open_cell_def)
    ultimately have "reachable adj4 grid s ?n" using "2.prems"(2) by (rule reachable_step[rotated])
    then show ?thesis
      using "2.prems" True by (intro "2.hyps"(1)[OF refl refl]) (auto simp: Let_def)
  next
    case False
    then show ?thesis using "2.prems" by (intro "2.hyps"(2)[OF refl refl]) (auto simp: Let_def)
  qed
qed

lemma bfs_unreachable:
  assumes "grid \<noteq> []" and "\<not> reachable adj4 grid s e"
  shows "\<exists>steps. bfs grid s e = Some (Inr steps) \<and> list_all is_explore steps"
proof -
  let ?rows = "int (length grid)" and ?cols = "int (length (grid ! 0))"
  have "\<exists>out. bfs_loop grid ?rows ?cols s e [s] [s] Map.empty [] = Some out \<and> list_all is_explore out"
  proof (rule bfs_loop_total[where I = "\<lambda>queue visited parent steps.
        (\<forall>c \<in> set queue. reachable adj4 grid s c) \<and> list_all is_explore steps"])
    show "(\<forall>c \<in> set [s]. reachable adj4 grid s c) \<and> list_all is_explore []"
      by (simp add: reachable_refl)
  next
    fix row col queue1 visited parent steps visited1 parent1 queue2
    assume i: "(\<forall>c \<in> set ((row, col) # queue1). reachable adj4 grid s c) \<and> list_all is_explore steps"
      and nb: "bfs_neighbors grid ?rows ?cols (row, col) bfs_directions (visited, parent, queue1)
          = (visited1, parent1, queue2)"
    from bfs_neighbors_reach[OF nb, of s] i
    show "(\<forall>c \<in> set queue2. reachable adj4 grid s c)
        \<and> list_all is_explore (steps @ [Explore (row, col) visited])" by simp
  next
    fix visited :: "pos list" and parent :: "pos \<rightharpoonup> pos" and steps
    assume "(\<forall>c \<in> set []. reachable adj4 grid s c) \<and> list_all is_explore steps"
    then show "list_all is_explore steps" by simp
  next
    fix queue1 visited parent steps
    assume "(\<forall>c \<in> set (e # queue1). reachable adj4 grid s c) \<and> list_all is_explore steps"
    with assms(2) show "\<exists>path. walk_parents parent e [] = Some path \<and>
        list_all is_explore ((steps @ [Explore e visited]) @ [Path (s # path)])" by simp
  qed
  with assms(1) show ?thesis by (auto simp: bfs_def Let_def set_add_def)
qed

lemma find_min_result:
  "find_min visited distances cells (c0, m0) = (c, m) \<Longrightarrow>
   (c, m) = (c0, m0) \<or> (\<exists>k. c = Some k \<and> m = distances k \<and> k \<in> set cells \<and> k \<notin> set visited)"
  by (induction cells arbitrary: c0 m0) (auto split: if_splits)

lemma dijkstra_relax_reach:
  "dijkstra_relax grid rows cols cur ds (distances, parent) = (d1, p1) \<Longrightarrow>
   reachable adj8 grid s cur \<Longrightarrow> set ds \<subseteq> set directions8 \<Longrightarrow>
   \<forall>c. distances c \<noteq> Infinity \<longrightarrow> reachable adj8 grid s c \<Longrightarrow>
   \<forall>c. d1 c \<noteq> Infinity \<longrightarrow> reachable adj8 grid s c"
proof (induction grid rows cols cur ds "(distances, parent)"
    arbitrary: distances parent rule: dijkstra_relax.induct)
  case (1 grid rows cols current)
  then show ?case by simp
next
  case (2 grid rows cols curRow curCol dRow dCol cost ds distances parent)
  let ?n = "(curRow + dRow, curCol + dCol)"
  let ?ok = "curRow + dRow \<ge> 0 \<and> curRow + dRow < rows \<and> curCol + dCol \<ge> 0 \<and> curCol + dCol < cols \<and>
         cell grid (curRow + dRow) (curCol + dCol) = Some 0"
  let ?nd = "fadd (distances (curRow, curCol)) cost"
  show ?case
  proof (cases "?ok \<and> fless ?nd (distances ?n)")
    case True
    have "adj8 (curRow, curCol) ?n" using "2.prems"(3) by (intro directions8_adj8[of _ _ cost]) simp
    moreover have "open_cell grid ?n" using True by (simp add: open_cell_def)
    ultimately have r: "reachable adj8 grid s ?n" using "2.prems"(2) by (rule reachable_step[rotated])
    have run: "dijkstra_relax grid rows cols (curRow, curCol) ds
        (distances(?n := ?nd), parent(?n \<mapsto> (curRow, curCol))) = (d1, p1)"
      using "2.prems"(1) True by (simp add: Let_def)
    show ?thesis
      using True "2.prems"(2,3,4) r
      by (intro "2.hyps"(1)[OF refl refl _ refl refl _ run]) auto
  next
    case False
    then have run: "dijkstra_relax grid rows cols (curRow, curCol) ds (distances, parent) = (d1, p1)"
      using "2.prems"(1) by (auto simp: Let_def split: if_splits)
    show ?thesis
    proof (cases ?ok)
      case True
      with False have "\<not> fless ?nd (distances ?n)" by simp
      with True show ?thesis
        using "2.prems"(2,3,4) by (intro "2.hyps"(2)[OF refl refl _ refl refl _ run]) auto
    next
      case False
      then show ?thesis
        using "2.prems"(2,3,4) by (intro "2.hyps"(3)[OF refl refl _ run]) auto
    qed
  qed
qed

lemma dijkstra_unreachable:
  assumes "grid \<noteq> []" and "\<not> reachable adj8 grid s e"
  shows "\<exists>steps. dijkstra grid s e = Some (Inr steps) \<and> list_all is_explore steps"
proof -
  let ?rows = "int (length grid)" and ?cols = "int (length (grid ! 0))"
  have "\<exists>out. dijkstra_loop grid ?rows ?cols s e [] ((\<lambda>key. Infinity)(s := Finite 0)) Map.empty [] = Some out
      \<and> list_all is_explore out"
  proof (rule dijkstra_loop_total[where I = "\<lambda>visited distances parent steps.
        (\<forall>c. distances c \<noteq> Infinity \<longrightarrow> reachable adj8 grid s c) \<and> list_all is_explore steps"])
    show "(\<forall>c. ((\<lambda>key. Infinity)(s := Finite 0)) c \<noteq> Infinity \<longrightarrow> reachable adj8 grid s c) \<and> list_all is_explore []"
      by (simp add: reachable_refl)
  next
    fix visited distances parent steps cur m d1 p1
    assume i: "(\<forall>c. distances c \<noteq> Infinity \<longrightarrow> reachable adj8 grid s c) \<and> list_all is_explore steps"
      and fm: "find_min visited distances (all_cells ?rows ?cols) (None, Infinity) = (Some cur, m)"
      and m: "m \<noteq> Infinity"
      and rl: "dijkstra_relax grid ?rows ?cols cur directions8 (distances, parent) = (d1, p1)"
    from find_min_result[OF fm] have md: "distances cur = m" by auto
    from m have "distances cur \<noteq> Infinity" unfolding md .
    moreover from i have "\<forall>c. distances c \<noteq> Infinity \<longrightarrow> reachable adj8 grid s c" by (rule conjunct1)
    then have "distances cur \<noteq> Infinity \<longrightarrow> reachable adj8 grid s cur" by (rule spec)
    ultimately have "reachable adj8 grid s cur" by (rule mp[rotated])
    from dijkstra_relax_reach[OF rl this] i
    show "(\<forall>c. d1 c \<noteq> Infinity \<longrightarrow> reachable adj8 grid s c)
        \<and> list_all is_explore (steps @ [Explore cur (set_add cur visited)])" by simp
  next
    fix visited :: "pos list" and distances :: "pos \<Rightarrow> float64" and parent :: "pos \<rightharpoonup> pos" and steps
    assume "(\<forall>c. distances c \<noteq> Infinity \<longrightarrow> reachable adj8 grid s c) \<and> list_all is_explore steps"
    then show "list_all is_explore steps" by simp
  next
    fix visited distances parent steps m
    assume i: "(\<forall>c. distances c \<noteq> Infinity \<longrightarrow> reachable adj8 grid s c) \<and> list_all is_explore steps"
      and fm: "find_min visited distances (all_cells ?rows ?cols) (None, Infinity) = (Some e, m)"
      and m: "m \<noteq> Infinity"
    from find_min_result[OF fm] have md: "distances e = m" by auto
    from m have "distances e \<noteq> Infinity" unfolding md .
    moreover from i have "\<forall>c. distances c \<noteq> Infinity \<longrightarrow> reachable adj8 grid s c" by (rule conjunct1)
    then have "distances e \<noteq> Infinity \<longrightarrow> reachable adj8 grid s e" by (rule spec)
    ultimately have "reachable adj8 grid s e" by (rule mp[rotated])
    with assms(2) show "\<exists>path. walk_parents parent e [] = Some path \<and>
        list_all is_explore ((steps @ [Explore e (set_add e visited)]) @ [Path (s # path)])"
      by (rule notE)
  qed
  with assms(1) show ?thesis by (auto simp: dijkstra_def Let_def)
qed

lemma astar_neighbors_reach:
  "astar_neighbors grid rows cols e visited cur ds (parent, gScore, fScore, openSet)
     = (parent', gScore', fScore', openSet') \<Longrightarrow>
   reachable adj8 grid s cur \<Longrightarrow> set ds \<subseteq> set directions8 \<Longrightarrow>
   \<forall>c \<in> set openSet. reachable adj8 grid s c \<Longrightarrow> \<forall>c \<in> set openSet'. reachable adj8 grid s c"
proof (induction grid rows cols e visited cur ds "(parent, gScore, fScore, openSet)"
    arbitrary: parent gScore fScore openSet rule: astar_neighbors.induct)
  case (1 grid rows cols endPos visited current)
  then show ?case by simp
next
  case (2 grid rows cols endPos visited curRow curCol dRow dCol cost ds parent gScore fScore openSet)
  let ?n = "(curRow + dRow, curCol + dCol)"
  let ?t = "fadd (gScore (curRow, curCol)) cost"
  let ?ok = "curRow + dRow \<ge> 0 \<and> curRow + dRow < rows \<and> curCol + dCol \<ge> 0 \<and> curCol + dCol < cols \<and>
         cell grid (curRow + dRow) (curCol + dCol) = Some 0 \<and> ?n \<notin> set visited"
  show ?case
  proof (cases "?ok \<and> fless ?t (gScore ?n)")
    case True
    let ?o1 = "(if ?n \<notin> set openSet then openSet @ [?n] else openSet)"
    have "adj8 (curRow, curCol) ?n" using "2.prems"(3) by (intro directions8_adj8[of _ _ cost]) simp
    moreover have "open_cell grid ?n" using True by (simp add: open_cell_def)
    ultimately have r: "reachable adj8 grid s ?n" using "2.prems"(2) by (rule reachable_step[rotated])
    have run: "astar_neighbors grid rows cols endPos visited (curRow, curCol) ds
        (parent(?n \<mapsto> (curRow, curCol)), gScore(?n := ?t), fScore(?n := fadd ?t (heuristic endPos ?n)), ?o1)
        = (parent', gScore', fScore', openSet')"
      using "2.prems"(1) True by (simp add: Let_def)
    show ?thesis
      using True "2.prems"(2,3,4) r
      by (intro "2.hyps"(1)[OF refl refl _ refl refl _ refl refl refl refl refl run]) auto
  next
    case False
    then have run: "astar_neighbors grid rows cols endPos visited (curRow, curCol) ds
        (parent, gScore, fScore, openSet) = (parent', gScore', fScore', openSet')"
      using "2.prems"(1) by (auto simp: Let_def split: if_splits)
    show ?thesis
    proof (cases ?ok)
      case True
      with False have "\<not> fless ?t (gScore ?n)" by simp
      with True show ?thesis
        using "2.prems"(2,3,4) by (intro "2.hyps"(2)[OF refl refl _ refl refl _ run]) auto
    next
      case False
      then show ?thesis
        using "2.prems"(2,3,4) by (intro "2.hyps"(3)[OF refl refl _ run]) auto
    qed
  qed
qed

lemma astar_lowest_mem:
  assumes "astar_lowest fScore others 1 (first, 0, fScore first) = (current, idx, lowF)"
  shows "current \<in> set (first # others)"
proof -
  from astar_lowest_index[OF assms] have "idx < length (first # others)" by simp
  moreover from astar_lowest_current[OF assms, of "[first]"] have "(first # others) ! idx = current"
    by simp
  ultimately show ?thesis by (metis nth_mem)
qed

lemma aStar_unreachable:
  assumes "grid \<noteq> []" and "\<not> reachable adj8 grid s e"
  shows "\<exists>steps. aStar grid s e = Some (Inr steps) \<and> list_all is_explore steps"
proof -
  let ?rows = "int (length grid)" and ?cols = "int (length (grid ! 0))"
  have "\<exists>out. astar_loop grid ?rows ?cols e [s] [] ((\<lambda>key. Infinity)(s := Finite 0))
      ((\<lambda>key. Infinity)(s := heuristic e s)) Map.empty [] = Some out \<and> list_all is_explore out"
  proof (rule astar_loop_total[where I = "\<lambda>openSet visited gScore fScore parent steps.
        (\<forall>c \<in> set openSet. reachable adj8 grid s c) \<and> list_all is_explore steps"])
    show "(\<forall>c \<in> set [s]. reachable adj8 grid s c) \<and> list_all is_explore []"
      by (simp add: reachable_refl)
  next
    fix first others visited gScore fScore parent steps current idx lowF parent1 gScore1 fScore1 openSet2
    assume i: "(\<forall>c \<in> set (first # others). reachable adj8 grid s c) \<and> list_all is_explore steps"
      and low: "astar_lowest fScore others 1 (first, 0, fScore first) = (current, idx, lowF)"
      and nb: "astar_neighbors grid ?rows ?cols e (set_add current visited) current directions8
           (parent, gScore, fScore, take idx (first # others) @ drop (idx + 1) (first # others))
         = (parent1, gScore1, fScore1, openSet2)"
    from astar_lowest_mem[OF low] i have cur: "reachable adj8 grid s current" by blast
    have "\<forall>c \<in> set (take idx (first # others) @ drop (idx + 1) (first # others)).
        reachable adj8 grid s c"
      using i by (metis Un_iff in_set_dropD in_set_takeD set_append)
    from astar_neighbors_reach[OF nb cur subset_refl this] i
    show "(\<forall>c \<in> set openSet2. reachable adj8 grid s c)
        \<and> list_all is_explore (steps @ [Explore current (set_add current visited)])" by simp
  next
    fix visited :: "pos list" and gScore fScore :: "pos \<Rightarrow> float64" and parent :: "pos \<rightharpoonup> pos" and steps
    assume "(\<forall>c \<in> set []. reachable adj8 grid s c) \<and> list_all is_explore steps"
    then show "list_all is_explore steps" by simp
  next
    fix first others visited gScore fScore parent steps idx lowF
    assume i: "(\<forall>c \<in> set (first # others). reachable adj8 grid s c) \<and> list_all is_explore steps"
      and low: "astar_lowest fScore others 1 (first, 0, fScore first) = (e, idx, lowF)"
    from astar_lowest_mem[OF low] i assms(2)
    show "\<exists>path. astar_walk parent e [e] = Some path \<and> list_all is_explore (steps @ [Path path])"
      by blast
  qed
  with assms(1) show ?thesis by (auto simp: aStar_def Let_def)
qed

text \<open>
  C4. On a grid with at least one row, when no walk through open cells leads from the
  start to the end, each of \<open>bfs\<close> (4-directional walks), \<open>dijkstra\<close> and \<open>aStar\<close>
  (8-directional walks) returns a sequence, and every step of it is an \<open>explore\<close> step:
  there is no \<open>path\<close> step.
\<close>

theorem unreachable_only_explore:
  assumes "grid \<noteq> []"
  shows "(\<not> reachable adj4 grid s e \<longrightarrow>
           (\<exists>steps. bfs grid s e = Some (Inr steps) \<and> list_all is_explore steps))
       \<and> (\<not> reachable adj8 grid s e \<longrightarrow>
           (\<exists>steps. dijkstra grid s e = Some (Inr steps) \<and> list_all is_explore steps)
         \<and> (\<exists>steps. aStar grid s e = Some (Inr steps) \<and> list_all is_explore steps))"
  using assms bfs_unreachable dijkstra_unreachable aStar_unreachable by blast

text \<open>
  Witness for C4: the start \<open>(0, 0)\<close> is walled in, the end is \<open>(2, 2)\<close>; every walk from
  the start stays on the start.
\<close>

definition walled :: grid where
  "walled = [[0, 1, 0], [1, 1, 0], [0, 0, 0]]"

lemma walled_walk: "walk adj8 walled path \<Longrightarrow> path \<noteq> [] \<Longrightarrow> hd path = (0, 0) \<Longrightarrow> length path = 1"
proof (cases path)
  case Nil
  assume "path \<noteq> []" with Nil show ?thesis by simp
next
  case (Cons p r)
  assume w: "walk adj8 walled path" and h: "hd path = (0, 0)"
  show ?thesis
  proof (cases r)
    case Nil
    with Cons show ?thesis by simp
  next
    case (Cons q r')
    with \<open>path = p # r\<close> w h have a: "adj8 (0, 0) q" and o: "open_cell walled q" by auto
    obtain x y where q: "q = (x, y)" by (cases q) auto
    from a q have b: "\<bar>x\<bar> \<le> 1" "\<bar>y\<bar> \<le> 1" "\<not> (x = 0 \<and> y = 0)" by (auto simp: adj8_def)
    from o q have c: "0 \<le> x" "0 \<le> y" "cell walled x y = Some 0"
      by (auto simp: open_cell_def cell_def split: if_splits)
    from b c(1,2) have "(x = 0 \<and> y = 1) \<or> (x = 1 \<and> y = 0) \<or> (x = 1 \<and> y = 1)" by arith
    then show ?thesis using c(3) by (auto simp: cell_def walled_def)
  qed
qed

lemma walled_unreachable: "\<not> reachable adj8 walled (0, 0) (2, 2)"
proof
  assume "reachable adj8 walled (0, 0) (2, 2)"
  then obtain path where p: "path \<noteq> []" "hd path = (0, 0)" "last path = (2, 2)" "walk adj8 walled path"
    unfolding reachable_def joins_def by blast
  from walled_walk[OF p(4) p(1) p(2)] obtain x where "path = [x]"
    by (cases path) auto
  with p show False by simp
qed

lemma adj4_adj8: "adj4 p q \<Longrightarrow> adj8 p q"
  unfolding adj4_def adj8_def by (auto simp: prod_eq_iff)

lemma walk_mono: "walk adj grid path \<Longrightarrow> (\<And>p q. adj p q \<Longrightarrow> adj' p q) \<Longrightarrow> walk adj' grid path"
  by (induction adj grid path rule: walk.induct) auto

lemma reachable4_reachable8: "reachable adj4 grid s e \<Longrightarrow> reachable adj8 grid s e"
  unfolding reachable_def using walk_mono[of adj4 grid _ adj8] adj4_adj8 by blast

theorem unreachable_only_explore_witness:
  "walled \<noteq> [] \<and> \<not> reachable adj4 walled (0, 0) (2, 2) \<and> \<not> reachable adj8 walled (0, 0) (2, 2)
   \<and> (\<exists>steps. bfs walled (0, 0) (2, 2) = Some (Inr steps) \<and> list_all is_explore steps)
   \<and> (\<exists>steps. dijkstra walled (0, 0) (2, 2) = Some (Inr steps) \<and> list_all is_explore steps)
   \<and> (\<exists>steps. aStar walled (0, 0) (2, 2) = Some (Inr steps) \<and> list_all is_explore steps)
   \<and> bfs walled (0, 0) (2, 2) = Some (Inr [Explore (0, 0) [(0, 0)]])
   \<and> dijkstra walled (0, 0) (2, 2) = Some (Inr [Explore (0, 0) [(0, 0)]])
   \<and> aStar walled (0, 0) (2, 2) = Some (Inr [Explore (0, 0) [(0, 0)]])"
proof -
  have ne: "walled \<noteq> []" by (simp add: walled_def)
  have u8: "\<not> reachable adj8 walled (0, 0) (2, 2)" by (rule walled_unreachable)
  then have u4: "\<not> reachable adj4 walled (0, 0) (2, 2)" using reachable4_reachable8 by blast
  have runs: "bfs walled (0, 0) (2, 2) = Some (Inr [Explore (0, 0) [(0, 0)]])"
    "dijkstra walled (0, 0) (2, 2) = Some (Inr [Explore (0, 0) [(0, 0)]])"
    "aStar walled (0, 0) (2, 2) = Some (Inr [Explore (0, 0) [(0, 0)]])"
    by code_simp+
  from unreachable_only_explore[OF ne, of "(0, 0)" "(2, 2)"] u4 u8 ne runs show ?thesis by simp
qed

section \<open>The cost of a path\<close>

text \<open>
  The cost of a path as a real number, without rounding: a move along a row or a column
  costs 1 and a diagonal move costs 1.4. It is counted in tenths, 10 and 14, so that it
  is a natural number.
\<close>

definition step_cost :: "pos \<Rightarrow> pos \<Rightarrow> nat" where
  "step_cost p q = (if fst p = fst q \<or> snd p = snd q then 10 else 14)"

fun path_cost :: "pos list \<Rightarrow> nat" where
  "path_cost (p # q # r) = step_cost p q + path_cost (q # r)"
| "path_cost [p] = 0"
| "path_cost [] = 0"

text \<open>Three rows of four cells with one obstacle at \<open>(1, 1)\<close>.\<close>

definition detour :: grid where
  "detour = [[0, 0, 0, 0], [0, 1, 0, 0], [0, 0, 0, 0]]"

lemma aStar_detour:
  "aStar detour (0, 0) (2, 3) =
     Some (Inr [Explore (0, 0) [(0, 0)], Explore (1, 0) [(0, 0), (1, 0)],
        Explore (2, 1) [(0, 0), (1, 0), (2, 1)],
        Explore (2, 2) [(0, 0), (1, 0), (2, 1), (2, 2)],
        Path [(0, 0), (1, 0), (2, 1), (2, 2), (2, 3)]])"
  by code_simp

lemma dijkstra_detour:
  "dijkstra detour (0, 0) (2, 3) =
     Some (Inr [Explore (0, 0) [(0, 0)], Explore (0, 1) [(0, 0), (0, 1)],
        Explore (1, 0) [(0, 0), (0, 1), (1, 0)],
        Explore (0, 2) [(0, 0), (0, 1), (1, 0), (0, 2)],
        Explore (2, 0) [(0, 0), (0, 1), (1, 0), (0, 2), (2, 0)],
        Explore (1, 2) [(0, 0), (0, 1), (1, 0), (0, 2), (2, 0), (1, 2)],
        Explore (2, 1) [(0, 0), (0, 1), (1, 0), (0, 2), (2, 0), (1, 2), (2, 1)],
        Explore (0, 3) [(0, 0), (0, 1), (1, 0), (0, 2), (2, 0), (1, 2), (2, 1), (0, 3)],
        Explore (1, 3) [(0, 0), (0, 1), (1, 0), (0, 2), (2, 0), (1, 2), (2, 1), (0, 3), (1, 3)],
        Explore (2, 2)
          [(0, 0), (0, 1), (1, 0), (0, 2), (2, 0), (1, 2), (2, 1), (0, 3), (1, 3), (2, 2)],
        Explore (2, 3)
          [(0, 0), (0, 1), (1, 0), (0, 2), (2, 0), (1, 2), (2, 1), (0, 3), (1, 3), (2, 2), (2, 3)],
        Path [(0, 0), (0, 1), (1, 2), (2, 3)]])"
  by code_simp

lemma detour_walk:
  "open_cell detour (0, 0)" "open_cell detour (2, 3)"
  "joins [(0, 0), (0, 1), (1, 2), (2, 3)] (0, 0) (2, 3)"
  "walk adj8 detour [(0, 0), (0, 1), (1, 2), (2, 3)]"
  by (simp_all add: open_cell_def cell_def detour_def joins_def adj8_def)

text \<open>
  C2. On the grid \<open>detour\<close>, whose start \<open>(0, 0)\<close> and end \<open>(2, 3)\<close> are open, the \<open>path\<close>
  step returned by \<open>aStar\<close> carries the path \<open>(0,0), (1,0), (2,1), (2,2), (2,3)\<close> of cost
  4.4, although the 8-directional walk \<open>(0,0), (0,1), (1,2), (2,3)\<close> through open cells
  costs only 3.8; the latter is the path that \<open>dijkstra\<close> returns on the same input.
  So the path of \<open>aStar\<close> is not of minimal cost.
\<close>

theorem aStar_path_not_minimal:
  "open_cell detour (0, 0) \<and> open_cell detour (2, 3)
   \<and> aStar detour (0, 0) (2, 3) =
       Some (Inr [Explore (0, 0) [(0, 0)], Explore (1, 0) [(0, 0), (1, 0)],
          Explore (2, 1) [(0, 0), (1, 0), (2, 1)],
          Explore (2, 2) [(0, 0), (1, 0), (2, 1), (2, 2)],
          Path [(0, 0), (1, 0), (2, 1), (2, 2), (2, 3)]])
   \<and> path_cost [(0, 0), (1, 0), (2, 1), (2, 2), (2, 3)] = 44
   \<and> joins [(0, 0), (0, 1), (1, 2), (2, 3)] (0, 0) (2, 3)
   \<and> walk adj8 detour [(0, 0), (0, 1), (1, 2), (2, 3)]
   \<and> path_cost [(0, 0), (0, 1), (1, 2), (2, 3)] = 38
   \<and> (\<exists>steps. dijkstra detour (0, 0) (2, 3) =
         Some (Inr (steps @ [Path [(0, 0), (0, 1), (1, 2), (2, 3)]])))"
proof -
  have "path_cost [(0, 0), (1, 0), (2, 1), (2, 2), (2, 3)] = 44"
    "path_cost [(0, 0), (0, 1), (1, 2), (2, 3)] = 38"
    by (simp_all add: step_cost_def)
  moreover have "\<exists>steps. dijkstra detour (0, 0) (2, 3) =
         Some (Inr (steps @ [Path [(0, 0), (0, 1), (1, 2), (2, 3)]]))"
    unfolding dijkstra_detour by (rule exI[of _ "[Explore (0, 0) [(0, 0)], Explore (0, 1) [(0, 0), (0, 1)],
        Explore (1, 0) [(0, 0), (0, 1), (1, 0)],
        Explore (0, 2) [(0, 0), (0, 1), (1, 0), (0, 2)],
        Explore (2, 0) [(0, 0), (0, 1), (1, 0), (0, 2), (2, 0)],
        Explore (1, 2) [(0, 0), (0, 1), (1, 0), (0, 2), (2, 0), (1, 2)],
        Explore (2, 1) [(0, 0), (0, 1), (1, 0), (0, 2), (2, 0), (1, 2), (2, 1)],
        Explore (0, 3) [(0, 0), (0, 1), (1, 0), (0, 2), (2, 0), (1, 2), (2, 1), (0, 3)],
        Explore (1, 3) [(0, 0), (0, 1), (1, 0), (0, 2), (2, 0), (1, 2), (2, 1), (0, 3), (1, 3)],
        Explore (2, 2)
          [(0, 0), (0, 1), (1, 0), (0, 2), (2, 0), (1, 2), (2, 1), (0, 3), (1, 3), (2, 2)],
        Explore (2, 3)
          [(0, 0), (0, 1), (1, 0), (0, 2), (2, 0), (1, 2), (2, 1), (0, 3), (1, 3), (2, 2), (2, 3)]]"]) simp
  ultimately show ?thesis using aStar_detour detour_walk by simp
qed

section \<open>bfs returns a path with the fewest cells\<close>

text \<open>A grid is rectangular when every row is as long as the first one.\<close>

definition rectangular :: "grid \<Rightarrow> bool" where
  "rectangular grid \<longleftrightarrow> list_all (\<lambda>row. length row = length (grid ! 0)) grid"

lemma rectangular_open:
  assumes "rectangular grid"
  shows "(0 \<le> r \<and> r < int (length grid) \<and> 0 \<le> c \<and> c < int (length (grid ! 0)) \<and>
          cell grid r c = Some 0) = open_cell grid (r, c)"
proof -
  have "length (grid ! nat r) = length (grid ! 0)" if "0 \<le> r" "r < int (length grid)"
    using assms that by (simp add: rectangular_def list_all_length)
  then show ?thesis by (auto simp: open_cell_def cell_def split: if_splits)
qed

subsection \<open>What one round of the neighbour loop does\<close>

definition shifted :: "pos \<Rightarrow> (int \<times> int) list \<Rightarrow> pos set" where
  "shifted cur ds = (\<lambda>d. (fst cur + fst d, snd cur + snd d)) ` set ds"

lemma shifted_Cons: "shifted cur (d # ds) = insert (fst cur + fst d, snd cur + snd d) (shifted cur ds)"
  by (simp add: shifted_def)

lemma shifted_directions: "shifted cur bfs_directions = {n. adj4 cur n}"
proof (rule set_eqI)
  fix n :: pos
  obtain a b where n: "n = (a, b)" by (cases n) auto
  obtain r c where cur: "cur = (r, c)" by (cases cur) auto
  have "adj4 cur n \<longleftrightarrow> (a = r - 1 \<and> b = c) \<or> (a = r + 1 \<and> b = c) \<or> (a = r \<and> b = c - 1) \<or> (a = r \<and> b = c + 1)"
    unfolding adj4_def n cur by simp arith
  then show "n \<in> shifted cur bfs_directions \<longleftrightarrow> n \<in> {n. adj4 cur n}"
    unfolding n cur by (auto simp: shifted_def bfs_directions_def)
qed

lemma bfs_neighbors_char:
  assumes inb: "\<And>r c. (0 \<le> r \<and> r < rows \<and> 0 \<le> c \<and> c < cols \<and> cell grid r c = Some 0)
      = open_cell grid (r, c)"
  shows "bfs_neighbors grid rows cols (row, col) ds (visited, parent, queue) = (visited', parent', queue') \<Longrightarrow>
    \<exists>news. visited' = visited @ news \<and> queue' = queue @ news \<and>
      set news = {n \<in> shifted (row, col) ds. open_cell grid n \<and> n \<notin> set visited} \<and>
      (\<forall>c. parent' c = (if c \<in> set news then Some (row, col) else parent c))"
proof (induction ds arbitrary: visited parent queue)
  case Nil
  then show ?case by (simp add: shifted_def)
next
  case (Cons d ds)
  obtain dRow dCol where d: "d = (dRow, dCol)" by (cases d) auto
  let ?n = "(row + dRow, col + dCol)"
  have sh: "shifted (row, col) (d # ds) = insert ?n (shifted (row, col) ds)"
    by (simp add: shifted_Cons d)
  show ?case
  proof (cases "open_cell grid ?n \<and> ?n \<notin> set visited")
    case True
    then have c: "row + dRow \<ge> 0 \<and> row + dRow < rows \<and> col + dCol \<ge> 0 \<and> col + dCol < cols \<and>
         cell grid (row + dRow) (col + dCol) = Some 0 \<and> ?n \<notin> set visited"
      using inb[of "row + dRow" "col + dCol"] by simp
    have "bfs_neighbors grid rows cols (row, col) ds
        (visited @ [?n], parent(?n \<mapsto> (row, col)), queue @ [?n]) = (visited', parent', queue')"
      using Cons.prems c unfolding d by (simp add: Let_def set_add_def)
    from Cons.IH[OF this] obtain news where
      v: "visited' = (visited @ [?n]) @ news" and q: "queue' = (queue @ [?n]) @ news"
      and s: "set news = {n \<in> shifted (row, col) ds. open_cell grid n \<and> n \<notin> set (visited @ [?n])}"
      and p: "\<forall>c. parent' c = (if c \<in> set news then Some (row, col) else (parent(?n \<mapsto> (row, col))) c)"
      by blast
    have "set (?n # news) = {n \<in> shifted (row, col) (d # ds). open_cell grid n \<and> n \<notin> set visited}"
      unfolding sh using s True by auto
    moreover have "\<forall>c. parent' c = (if c \<in> set (?n # news) then Some (row, col) else parent c)"
      using p by auto
    ultimately show ?thesis using v q by (intro exI[of _ "?n # news"]) simp
  next
    case False
    then have c: "\<not> (row + dRow \<ge> 0 \<and> row + dRow < rows \<and> col + dCol \<ge> 0 \<and> col + dCol < cols \<and>
         cell grid (row + dRow) (col + dCol) = Some 0 \<and> ?n \<notin> set visited)"
      using inb[of "row + dRow" "col + dCol"] by blast
    have "bfs_neighbors grid rows cols (row, col) ds (visited, parent, queue) = (visited', parent', queue')"
      using Cons.prems c unfolding d by (simp add: Let_def)
    from Cons.IH[OF this] obtain news where
      v: "visited' = visited @ news" and q: "queue' = queue @ news"
      and s: "set news = {n \<in> shifted (row, col) ds. open_cell grid n \<and> n \<notin> set visited}"
      and p: "\<forall>c. parent' c = (if c \<in> set news then Some (row, col) else parent c)"
      by blast
    have "set news = {n \<in> shifted (row, col) (d # ds). open_cell grid n \<and> n \<notin> set visited}"
      unfolding sh using s False by auto
    with v q p show ?thesis by blast
  qed
qed

subsection \<open>The number of moves to a cell\<close>

text \<open>
  The least number of moves of a 4-directional walk from the start to a cell; it is
  only used in the proofs, for cells that can be reached.
\<close>

definition depth :: "grid \<Rightarrow> pos \<Rightarrow> pos \<Rightarrow> nat" where
  "depth grid s c = (LEAST k. \<exists>w. joins w s c \<and> walk adj4 grid w \<and> length w = Suc k)"

lemma depth_walk:
  assumes "reachable adj4 grid s c"
  shows "\<exists>w. joins w s c \<and> walk adj4 grid w \<and> length w = Suc (depth grid s c)"
proof -
  from assms obtain w where w: "joins w s c" "walk adj4 grid w" unfolding reachable_def by blast
  then have "length w = Suc (length w - 1)" by (cases w) (auto simp: joins_def)
  with w have "\<exists>w'. joins w' s c \<and> walk adj4 grid w' \<and> length w' = Suc (length w - 1)" by blast
  then show ?thesis unfolding depth_def by (rule LeastI)
qed

lemma depth_le:
  assumes "joins w s c" and "walk adj4 grid w"
  shows "Suc (depth grid s c) \<le> length w"
proof -
  from assms(1) have l: "length w = Suc (length w - 1)" by (cases w) (auto simp: joins_def)
  with assms have "\<exists>w'. joins w' s c \<and> walk adj4 grid w' \<and> length w' = Suc (length w - 1)" by blast
  then have "depth grid s c \<le> length w - 1" unfolding depth_def by (rule Least_le)
  with l show ?thesis by arith
qed

lemma depth_start: "depth grid s s = 0"
  using depth_le[of "[s]" s s grid] by (simp add: joins_def)

lemma depth_step:
  assumes "reachable adj4 grid s c" and "adj4 c n" and "open_cell grid n"
  shows "depth grid s n \<le> Suc (depth grid s c)"
proof -
  from depth_walk[OF assms(1)] obtain w where
    w: "joins w s c" "walk adj4 grid w" "length w = Suc (depth grid s c)" by blast
  from w(1) have ne: "w \<noteq> []" and l: "last w = c" and h: "hd w = s" by (simp_all add: joins_def)
  from walk_snoc[OF w(2) ne] assms(2,3) l have "walk adj4 grid (w @ [n])" by simp
  moreover from ne h have "joins (w @ [n]) s n" by (simp add: joins_def)
  ultimately have "Suc (depth grid s n) \<le> length (w @ [n])" by (rule depth_le[rotated])
  with w(3) show ?thesis by simp
qed

lemma walk_butlast:
  "walk adj grid (w @ [x]) \<Longrightarrow> w \<noteq> [] \<Longrightarrow> walk adj grid w \<and> adj (last w) x \<and> open_cell grid x"
  by (induction adj grid w rule: walk.induct) auto

lemma depth_pred:
  assumes "reachable adj4 grid s x" and "x \<noteq> s"
  shows "\<exists>y. reachable adj4 grid s y \<and> adj4 y x \<and> open_cell grid x \<and> depth grid s y < depth grid s x"
proof -
  from depth_walk[OF assms(1)] obtain w where
    w: "joins w s x" "walk adj4 grid w" "length w = Suc (depth grid s x)" by blast
  from w(1) have ne: "w \<noteq> []" and l: "last w = x" and h: "hd w = s" by (simp_all add: joins_def)
  let ?b = "butlast w"
  from ne l have split: "w = ?b @ [x]" by (metis append_butlast_last_id)
  have bne: "?b \<noteq> []"
  proof
    assume "?b = []"
    with split have "w = [x]" by simp
    with h assms(2) show False by simp
  qed
  from w(2) have "walk adj4 grid (?b @ [x])" using split by simp
  from walk_butlast[OF this bne] have wb: "walk adj4 grid ?b" and a: "adj4 (last ?b) x"
    and o: "open_cell grid x" by simp_all
  from bne h split have hb: "hd ?b = s" by (metis hd_append2)
  with bne have j: "joins ?b s (last ?b)" by (simp add: joins_def)
  from depth_le[OF j wb] w(3) have "depth grid s (last ?b) < depth grid s x" by simp
  moreover from j wb have "reachable adj4 grid s (last ?b)" unfolding reachable_def by blast
  ultimately show ?thesis using a o by blast
qed

subsection \<open>The invariant of the search loop\<close>

text \<open>
  The start is visited and has no parent; the queue holds visited cells, in the order of
  their depth, at most one level apart; every visited cell other than the start has a
  visited parent one level above it that is its neighbour; every open neighbour of a
  cell that has left the queue is visited; and the end has not left the queue.
\<close>

definition bfs_inv :: "grid \<Rightarrow> pos \<Rightarrow> pos \<Rightarrow> pos list \<Rightarrow> pos list \<Rightarrow> (pos \<rightharpoonup> pos) \<Rightarrow> bool" where
  "bfs_inv grid s e queue visited parent \<longleftrightarrow>
     s \<in> set visited \<and> parent s = None \<and> set queue \<subseteq> set visited \<and>
     (\<forall>c \<in> set visited. reachable adj4 grid s c \<and>
        (c \<noteq> s \<longrightarrow> (\<exists>p \<in> set visited. parent c = Some p \<and> adj4 p c \<and> open_cell grid c \<and>
            depth grid s c = Suc (depth grid s p)))) \<and>
     sorted (map (depth grid s) queue) \<and>
     (\<forall>c \<in> set queue. depth grid s c \<le> Suc (depth grid s (hd queue))) \<and>
     (\<forall>c \<in> set visited - set queue. \<forall>n. adj4 c n \<and> open_cell grid n \<longrightarrow> n \<in> set visited) \<and>
     e \<notin> set visited - set queue"

lemma bfs_inv_init: "bfs_inv grid s e [s] [s] Map.empty"
  unfolding bfs_inv_def by (simp add: reachable_refl)

lemma bfs_inv_below:
  assumes inv: "bfs_inv grid s e (cur # rest) visited parent"
  shows "reachable adj4 grid s x \<Longrightarrow> depth grid s x < depth grid s cur \<Longrightarrow>
    x \<in> set visited - set (cur # rest)"
proof (induction "depth grid s x" arbitrary: x rule: less_induct)
  case less
  from inv have srt: "sorted (map (depth grid s) (cur # rest))"
    and st: "s \<in> set visited"
    and cl: "\<forall>c \<in> set visited - set (cur # rest). \<forall>n. adj4 c n \<and> open_cell grid n \<longrightarrow> n \<in> set visited"
    unfolding bfs_inv_def by blast+
  from srt have "\<forall>q \<in> set (cur # rest). depth grid s cur \<le> depth grid s q" by auto
  with less.prems(2) have notq: "x \<notin> set (cur # rest)" by (metis not_less)
  have "x \<in> set visited"
  proof (cases "x = s")
    case True
    with st show ?thesis by simp
  next
    case False
    from depth_pred[OF less.prems(1) False] obtain y where
      y: "reachable adj4 grid s y" "adj4 y x" "open_cell grid x" "depth grid s y < depth grid s x"
      by blast
    from y(4) less.prems(2) have "depth grid s y < depth grid s cur" by simp
    from less.hyps[OF y(4) y(1) this] have "y \<in> set visited - set (cur # rest)" .
    with cl y(2,3) show ?thesis by blast
  qed
  with notq show ?case by simp
qed

lemma bfs_inv_new_depth:
  assumes inv: "bfs_inv grid s e (cur # rest) visited parent"
    and n: "adj4 cur n" "open_cell grid n" "n \<notin> set visited"
  shows "depth grid s n = Suc (depth grid s cur)"
proof -
  from inv have st: "s \<in> set visited" and cv: "cur \<in> set visited"
    and rc: "reachable adj4 grid s cur"
    and cl: "\<forall>c \<in> set visited - set (cur # rest). \<forall>n. adj4 c n \<and> open_cell grid n \<longrightarrow> n \<in> set visited"
    unfolding bfs_inv_def by auto
  from reachable_step[OF rc n(1,2)] have rn: "reachable adj4 grid s n" .
  from st n(3) have ns: "n \<noteq> s" by blast
  have "\<not> depth grid s n \<le> depth grid s cur"
  proof
    assume le: "depth grid s n \<le> depth grid s cur"
    from depth_pred[OF rn ns] obtain y where
      y: "reachable adj4 grid s y" "adj4 y n" "depth grid s y < depth grid s n" by blast
    from y(3) le have "depth grid s y < depth grid s cur" by simp
    from bfs_inv_below[OF inv y(1) this] cl y(2) n(2) have "n \<in> set visited" by blast
    with n(3) show False by simp
  qed
  with depth_step[OF rc n(1,2)] show ?thesis by simp
qed

lemma bfs_inv_step:
  assumes inv: "bfs_inv grid s e (cur # rest) visited parent"
    and ne: "cur \<noteq> e"
    and news: "set news = {n. adj4 cur n \<and> open_cell grid n \<and> n \<notin> set visited}"
    and par: "\<forall>c. parent' c = (if c \<in> set news then Some cur else parent c)"
  shows "bfs_inv grid s e (rest @ news) (visited @ news) parent'"
proof -
  let ?d = "depth grid s"
  from inv have st: "s \<in> set visited" and ps: "parent s = None"
    and qv: "set (cur # rest) \<subseteq> set visited"
    and vis: "\<forall>c \<in> set visited. reachable adj4 grid s c \<and>
        (c \<noteq> s \<longrightarrow> (\<exists>p \<in> set visited. parent c = Some p \<and> adj4 p c \<and> open_cell grid c \<and>
            ?d c = Suc (?d p)))"
    and srt: "sorted (map ?d (cur # rest))"
    and lvl: "\<forall>c \<in> set (cur # rest). ?d c \<le> Suc (?d (hd (cur # rest)))"
    and cl: "\<forall>c \<in> set visited - set (cur # rest). \<forall>n. adj4 c n \<and> open_cell grid n \<longrightarrow> n \<in> set visited"
    and en: "e \<notin> set visited - set (cur # rest)"
    unfolding bfs_inv_def by blast+
  from qv have cv: "cur \<in> set visited" by simp
  from vis cv have rc: "reachable adj4 grid s cur" by blast
  have nd: "?d n = Suc (?d cur)" if "n \<in> set news" for n
    using that news bfs_inv_new_depth[OF inv, of n] by blast
  have nn: "adj4 cur n \<and> open_cell grid n \<and> n \<notin> set visited" if "n \<in> set news" for n
    using that news by blast
  have 1: "s \<in> set (visited @ news)" using st by simp
  have 2: "parent' s = None" using par st ps nn by metis
  have 3: "set (rest @ news) \<subseteq> set (visited @ news)" using qv by auto
  have 4: "\<forall>c \<in> set (visited @ news). reachable adj4 grid s c \<and>
        (c \<noteq> s \<longrightarrow> (\<exists>p \<in> set (visited @ news). parent' c = Some p \<and> adj4 p c \<and> open_cell grid c \<and>
            ?d c = Suc (?d p)))"
  proof
    fix c assume "c \<in> set (visited @ news)"
    then consider (old) "c \<in> set visited" | (new) "c \<in> set news" by auto
    then show "reachable adj4 grid s c \<and>
        (c \<noteq> s \<longrightarrow> (\<exists>p \<in> set (visited @ news). parent' c = Some p \<and> adj4 p c \<and> open_cell grid c \<and>
            ?d c = Suc (?d p)))"
    proof cases
      case old
      then have "c \<notin> set news" using nn by blast
      then have "parent' c = parent c" using par by (simp del: split_paired_All)
      with vis old show ?thesis by auto
    next
      case new
      then have "parent' c = Some cur" using par by (simp del: split_paired_All)
      moreover from nn[OF new] rc have "reachable adj4 grid s c" by (blast intro: reachable_step)
      ultimately show ?thesis using nn[OF new] nd[OF new] cv by auto
    qed
  qed
  have rest_le: "?d c \<le> Suc (?d cur)" if "c \<in> set rest" for c using lvl that by simp
  have rest_ge: "?d cur \<le> ?d c" if "c \<in> set rest" for c using srt that by auto
  have "sorted (map ?d news)"
  proof -
    have "map ?d news = replicate (length news) (Suc (?d cur))"
      using nd by (intro replicate_eqI) auto
    then show ?thesis by (simp add: sorted_replicate)
  qed
  with srt rest_le nd have 5: "sorted (map ?d (rest @ news))"
    by (auto simp: sorted_append)
  have hd_ge: "?d cur \<le> ?d (hd (rest @ news))" if "rest @ news \<noteq> []"
  proof (cases rest)
    case Nil
    with that have "hd (rest @ news) \<in> set news" by simp
    from nd[OF this] show ?thesis by simp
  next
    case (Cons a r)
    then have "hd (rest @ news) \<in> set rest" by simp
    from rest_ge[OF this] show ?thesis .
  qed
  have 6: "\<forall>c \<in> set (rest @ news). ?d c \<le> Suc (?d (hd (rest @ news)))"
  proof
    fix c assume c: "c \<in> set (rest @ news)"
    then have "rest @ news \<noteq> []" by auto
    from hd_ge[OF this] have h: "?d cur \<le> ?d (hd (rest @ news))" .
    from c consider "c \<in> set rest" | "c \<in> set news" by auto
    then have "?d c \<le> Suc (?d cur)"
    proof cases
      case 1
      from rest_le[OF 1] show ?thesis .
    next
      case 2
      from nd[OF 2] show ?thesis by simp
    qed
    with h show "?d c \<le> Suc (?d (hd (rest @ news)))" by simp
  qed
  have 7: "\<forall>c \<in> set (visited @ news) - set (rest @ news).
      \<forall>n. adj4 c n \<and> open_cell grid n \<longrightarrow> n \<in> set (visited @ news)"
  proof (intro ballI allI impI)
    fix c n assume c: "c \<in> set (visited @ news) - set (rest @ news)"
      and n: "adj4 c n \<and> open_cell grid n"
    from c have cv': "c \<in> set visited" and cr: "c \<notin> set rest" by auto
    show "n \<in> set (visited @ news)"
    proof (cases "c = cur")
      case True
      with n news show ?thesis by auto
    next
      case False
      with cv' cr have "c \<in> set visited - set (cur # rest)" by simp
      with cl n have "n \<in> set visited" by blast
      then show ?thesis by simp
    qed
  qed
  have 8: "e \<notin> set (visited @ news) - set (rest @ news)"
    using en ne by auto
  from 1 2 3 4 5 6 7 8 show ?thesis unfolding bfs_inv_def by blast
qed

lemma bfs_inv_all_visited:
  assumes inv: "bfs_inv grid s e [] visited parent"
  shows "walk adj4 grid w \<Longrightarrow> w \<noteq> [] \<Longrightarrow> hd w = s \<Longrightarrow> last w \<in> set visited"
proof (induction w rule: rev_induct)
  case Nil
  then show ?case by simp
next
  case (snoc x w)
  from inv have st: "s \<in> set visited"
    and cl: "\<forall>c \<in> set visited. \<forall>n. adj4 c n \<and> open_cell grid n \<longrightarrow> n \<in> set visited"
    unfolding bfs_inv_def by simp_all
  show ?case
  proof (cases "w = []")
    case True
    with snoc.prems st show ?thesis by simp
  next
    case False
    from walk_butlast[OF snoc.prems(1) False] have w: "walk adj4 grid w" and a: "adj4 (last w) x"
      and o: "open_cell grid x" by simp_all
    from False snoc.prems(3) have "hd w = s" by simp
    from snoc.IH[OF w False this] cl a o have "x \<in> set visited" by blast
    then show ?thesis by simp
  qed
qed

lemma bfs_inv_empty:
  assumes "bfs_inv grid s e [] visited parent" and "reachable adj4 grid s e"
  shows False
proof -
  from assms(2) obtain w where "walk adj4 grid w" "w \<noteq> []" "hd w = s" "last w = e"
    unfolding reachable_def joins_def by blast
  with bfs_inv_all_visited[OF assms(1)] have "e \<in> set visited" by blast
  with assms(1) show False unfolding bfs_inv_def by simp
qed

lemma bfs_inv_chain:
  assumes inv: "bfs_inv grid s e queue visited parent"
  shows "c \<in> set visited \<Longrightarrow>
    \<exists>chain. walk_parents parent c acc = Some (chain @ acc) \<and> walk adj4 grid (s # chain) \<and>
      last (s # chain) = c \<and> length chain = depth grid s c"
proof (induction "depth grid s c" arbitrary: c acc rule: less_induct)
  case less
  from inv have ps: "parent s = None"
    and vis: "\<forall>c \<in> set visited. reachable adj4 grid s c \<and>
        (c \<noteq> s \<longrightarrow> (\<exists>p \<in> set visited. parent c = Some p \<and> adj4 p c \<and> open_cell grid c \<and>
            depth grid s c = Suc (depth grid s p)))"
    unfolding bfs_inv_def by blast+
  show ?case
  proof (cases "c = s")
    case True
    have "walk_parents parent s acc = Some acc"
      by (subst walk_parents.simps) (simp add: ps)
    then show ?thesis unfolding True by (intro exI[of _ "[]"]) (simp add: depth_start)
  next
    case False
    with vis less.prems obtain p where p: "p \<in> set visited" "parent c = Some p" "adj4 p c"
      "open_cell grid c" "depth grid s c = Suc (depth grid s p)" by blast
    from p(5) have "depth grid s p < depth grid s c" by simp
    from less.hyps[OF this p(1), of "c # acc"] obtain chain where
      ch: "walk_parents parent p (c # acc) = Some (chain @ c # acc)" "walk adj4 grid (s # chain)"
        "last (s # chain) = p" "length chain = depth grid s p" by blast
    have "walk_parents parent c acc = Some ((chain @ [c]) @ acc)"
      by (subst walk_parents.simps) (simp add: p(2) ch(1))
    moreover from walk_snoc[OF ch(2), of c] ch(3) p(3,4) have "walk adj4 grid (s # chain @ [c])"
      by simp
    moreover have "last (s # chain @ [c]) = c" by simp
    moreover have "length (chain @ [c]) = depth grid s c" using ch(4) p(5) by simp
    ultimately show ?thesis by (intro exI[of _ "chain @ [c]"]) simp
  qed
qed

lemma bfs_shortest:
  assumes ne: "grid \<noteq> []" and rect: "rectangular grid" and reach: "reachable adj4 grid s e"
  shows "\<exists>steps path. bfs grid s e = Some (Inr (steps @ [Path path])) \<and> joins path s e \<and>
     walk adj4 grid path \<and> length path = Suc (depth grid s e)"
proof -
  let ?rows = "int (length grid)" and ?cols = "int (length (grid ! 0))"
  let ?Q = "\<lambda>out. \<exists>steps path. out = steps @ [Path path] \<and> joins path s e \<and>
     walk adj4 grid path \<and> length path = Suc (depth grid s e)"
  have "\<exists>out. bfs_loop grid ?rows ?cols s e [s] [s] Map.empty [] = Some out \<and> ?Q out"
  proof (rule bfs_loop_total[where I = "\<lambda>queue visited parent steps. bfs_inv grid s e queue visited parent"])
    show "bfs_inv grid s e [s] [s] Map.empty" by (rule bfs_inv_init)
  next
    fix row col queue1 visited parent and steps :: "pstep list" and visited1 parent1 queue2
    assume inv: "bfs_inv grid s e ((row, col) # queue1) visited parent"
      and ne: "\<not> (row = fst e \<and> col = snd e)"
      and nb: "bfs_neighbors grid ?rows ?cols (row, col) bfs_directions (visited, parent, queue1)
          = (visited1, parent1, queue2)"
    from bfs_neighbors_char[OF rectangular_open[OF rect] nb] obtain news where
      v: "visited1 = visited @ news" and q: "queue2 = queue1 @ news"
      and sn: "set news = {n \<in> shifted (row, col) bfs_directions. open_cell grid n \<and> n \<notin> set visited}"
      and p: "\<forall>c. parent1 c = (if c \<in> set news then Some (row, col) else parent c)"
      by blast
    from sn have sn': "set news = {n. adj4 (row, col) n \<and> open_cell grid n \<and> n \<notin> set visited}"
      unfolding shifted_directions by simp
    from ne have "(row, col) \<noteq> e" by auto
    from bfs_inv_step[OF inv this sn' p] show "bfs_inv grid s e queue2 visited1 parent1"
      unfolding v q .
  next
    fix visited parent and steps :: "pstep list"
    assume "bfs_inv grid s e [] visited parent"
    from bfs_inv_empty[OF this reach] show "?Q steps" ..
  next
    fix queue1 visited parent and steps :: "pstep list"
    assume inv: "bfs_inv grid s e (e # queue1) visited parent"
    then have "e \<in> set visited" unfolding bfs_inv_def by simp
    from bfs_inv_chain[OF inv this, of "[]"] obtain chain where
      ch: "walk_parents parent e [] = Some chain" "walk adj4 grid (s # chain)"
        "last (s # chain) = e" "length chain = depth grid s e" by auto
    have "?Q ((steps @ [Explore e visited]) @ [Path (s # chain)])"
      using ch(2,3,4) by (intro exI[of _ "steps @ [Explore e visited]"] exI[of _ "s # chain"])
        (simp add: joins_def)
    with ch(1) show "\<exists>path. walk_parents parent e [] = Some path \<and>
        ?Q ((steps @ [Explore e visited]) @ [Path (s # path)])" by blast
  qed
  with ne show ?thesis by (auto simp: bfs_def Let_def set_add_def)
qed

lemma bfs_open_3x3:
  "bfs [[0, 0, 0], [0, 0, 0], [0, 0, 0]] (0, 0) (2, 2) =
     Some (Inr ([Explore (0, 0) [(0, 0)], Explore (1, 0) [(0, 0), (1, 0), (0, 1)],
        Explore (0, 1) [(0, 0), (1, 0), (0, 1), (2, 0), (1, 1)],
        Explore (2, 0) [(0, 0), (1, 0), (0, 1), (2, 0), (1, 1), (0, 2)],
        Explore (1, 1) [(0, 0), (1, 0), (0, 1), (2, 0), (1, 1), (0, 2), (2, 1)],
        Explore (0, 2) [(0, 0), (1, 0), (0, 1), (2, 0), (1, 1), (0, 2), (2, 1), (1, 2)],
        Explore (2, 1) [(0, 0), (1, 0), (0, 1), (2, 0), (1, 1), (0, 2), (2, 1), (1, 2)],
        Explore (1, 2) [(0, 0), (1, 0), (0, 1), (2, 0), (1, 1), (0, 2), (2, 1), (1, 2), (2, 2)],
        Explore (2, 2) [(0, 0), (1, 0), (0, 1), (2, 0), (1, 1), (0, 2), (2, 1), (1, 2), (2, 2)]]
       @ [Path [(0, 0), (1, 0), (2, 0), (2, 1), (2, 2)]]))"
  by code_simp

text \<open>
  C5. On a rectangular grid with at least one row on which a 4-directional walk through
  open cells leads from the start to the end, \<open>bfs\<close> returns a sequence whose last step
  is a \<open>path\<close> step; the path it carries is such a walk from the start to the end, and no
  such walk has fewer cells. On the open grid of three rows and three columns, from
  \<open>(0, 0)\<close> to \<open>(2, 2)\<close>, the last step is a \<open>path\<close> step whose path has 5 cells.
\<close>

theorem bfs_path_shortest:
  "(grid \<noteq> [] \<and> rectangular grid \<and> reachable adj4 grid s e \<longrightarrow>
      (\<exists>steps path. bfs grid s e = Some (Inr (steps @ [Path path])) \<and>
         joins path s e \<and> walk adj4 grid path \<and>
         (\<forall>other. joins other s e \<and> walk adj4 grid other \<longrightarrow> length path \<le> length other)))
   \<and> (\<exists>steps path. bfs [[0, 0, 0], [0, 0, 0], [0, 0, 0]] (0, 0) (2, 2)
          = Some (Inr (steps @ [Path path])) \<and> length path = 5)"
proof (intro conjI impI)
  assume a: "grid \<noteq> [] \<and> rectangular grid \<and> reachable adj4 grid s e"
  with bfs_shortest[of grid s e] obtain steps path where
    p: "bfs grid s e = Some (Inr (steps @ [Path path]))" "joins path s e" "walk adj4 grid path"
      "length path = Suc (depth grid s e)" by blast
  have "length path \<le> length other" if "joins other s e \<and> walk adj4 grid other" for other
    using depth_le[of other s e grid] that p(4) by simp
  with p(1,2,3) show "\<exists>steps path. bfs grid s e = Some (Inr (steps @ [Path path])) \<and>
         joins path s e \<and> walk adj4 grid path \<and>
         (\<forall>other. joins other s e \<and> walk adj4 grid other \<longrightarrow> length path \<le> length other)"
    by blast
next
  show "\<exists>steps path. bfs [[0, 0, 0], [0, 0, 0], [0, 0, 0]] (0, 0) (2, 2)
          = Some (Inr (steps @ [Path path])) \<and> length path = 5"
    unfolding bfs_open_3x3 by (intro exI conjI, rule refl) simp
qed

text \<open>
  Witness for C5: the grid \<open>detour\<close> from \<open>(0, 0)\<close> to \<open>(2, 3)\<close>; the path of \<open>bfs\<close> is
  compared with a walk of eight cells around the obstacle.
\<close>

theorem bfs_path_shortest_witness:
  "detour \<noteq> [] \<and> rectangular detour \<and> reachable adj4 detour (0, 0) (2, 3)
   \<and> (\<exists>steps path. bfs detour (0, 0) (2, 3) = Some (Inr (steps @ [Path path])) \<and>
         joins path (0, 0) (2, 3) \<and> walk adj4 detour path \<and>
         length path \<le> length [(0, 0), (1, 0), (2, 0), (2, 1), (2, 2), (1, 2), (1, 3), (2 :: int, 3 :: int)])"
proof -
  let ?w = "[(0, 0), (1, 0), (2, 0), (2, 1), (2, 2), (1, 2), (1, 3), (2 :: int, 3 :: int)]"
  have h: "detour \<noteq> []" "rectangular detour" by (simp_all add: detour_def rectangular_def)
  have w: "joins ?w (0, 0) (2, 3)" "walk adj4 detour ?w"
    by (simp_all add: joins_def adj4_def open_cell_def cell_def detour_def)
  then have r: "reachable adj4 detour (0, 0) (2, 3)" unfolding reachable_def by blast
  from bfs_path_shortest[of detour "(0, 0)" "(2, 3)"] h r obtain steps path where
    p: "bfs detour (0, 0) (2, 3) = Some (Inr (steps @ [Path path]))" "joins path (0, 0) (2, 3)"
      "walk adj4 detour path"
      "\<forall>other. joins other (0, 0) (2, 3) \<and> walk adj4 detour other \<longrightarrow> length path \<le> length other"
    by blast
  from p(4) w have "length path \<le> length ?w" by blast
  with p(1,2,3) h r show ?thesis by blast
qed

section \<open>bfs returns on every grid with a row\<close>

text \<open>
  The only loop of \<open>bfs\<close> without a bound of its own is the walk over the parent
  pointers. It ends because the pointers never form a cycle: a cell gets its parent once,
  when it is first seen, and the parent was seen before it.
\<close>

lemma walk_parents_total:
  assumes "\<And>c p. parent c = Some p \<Longrightarrow> rank p < (rank c :: nat)"
  shows "\<exists>path. walk_parents parent c acc = Some path"
proof (induction "rank c" arbitrary: c acc rule: less_induct)
  case less
  show ?case
  proof (cases "parent c")
    case None
    then show ?thesis by (subst walk_parents.simps) simp
  next
    case (Some p)
    from less.hyps[OF assms[OF Some], of "c # acc"] obtain path where
      "walk_parents parent p (c # acc) = Some path" by blast
    then show ?thesis by (subst walk_parents.simps) (simp add: Some)
  qed
qed

definition ranked :: "pos list \<Rightarrow> (pos \<rightharpoonup> pos) \<Rightarrow> bool" where
  "ranked visited parent \<longleftrightarrow>
     (\<exists>rank :: pos \<Rightarrow> nat. \<forall>c p. parent c = Some p \<longrightarrow>
        c \<in> set visited \<and> p \<in> set visited \<and> rank p < rank c)"

lemma ranked_add:
  assumes "ranked visited parent" and "cur \<in> set visited" and "n \<notin> set visited"
  shows "ranked (visited @ [n]) (parent(n \<mapsto> cur))"
proof -
  from assms(1) obtain rank :: "pos \<Rightarrow> nat" where
    r: "\<And>c p. parent c = Some p \<Longrightarrow> c \<in> set visited \<and> p \<in> set visited \<and> rank p < rank c"
    unfolding ranked_def by blast
  let ?rank = "rank(n := Suc (rank cur))"
  have "c \<in> set (visited @ [n]) \<and> p \<in> set (visited @ [n]) \<and> ?rank p < ?rank c"
    if "(parent(n \<mapsto> cur)) c = Some p" for c p
  proof (cases "c = n")
    case True
    with that have "p = cur" by simp
    with True assms(2,3) show ?thesis by auto
  next
    case False
    with that have "parent c = Some p" by simp
    from r[OF this] assms(3) show ?thesis by auto
  qed
  then show ?thesis unfolding ranked_def by blast
qed

lemma bfs_neighbors_ranked:
  "bfs_neighbors grid rows cols cur ds (visited, parent, queue) = (visited', parent', queue') \<Longrightarrow>
   cur \<in> set visited \<Longrightarrow> set queue \<subseteq> set visited \<Longrightarrow> ranked visited parent \<Longrightarrow>
   set queue' \<subseteq> set visited' \<and> ranked visited' parent'"
proof (induction grid rows cols cur ds "(visited, parent, queue)"
    arbitrary: visited parent queue rule: bfs_neighbors.induct)
  case (1 grid rows cols cur)
  then show ?case by simp
next
  case (2 grid rows cols row col dRow dCol ds visited parent queue)
  let ?n = "(row + dRow, col + dCol)"
  show ?case
  proof (cases "row + dRow \<ge> 0 \<and> row + dRow < rows \<and> col + dCol \<ge> 0 \<and> col + dCol < cols \<and>
         cell grid (row + dRow) (col + dCol) = Some 0 \<and> ?n \<notin> set visited")
    case True
    then have add: "set_add ?n visited = visited @ [?n]" by (simp add: set_add_def)
    from ranked_add[OF "2.prems"(4,2)] True
    have "ranked (set_add ?n visited) (parent(?n \<mapsto> (row, col)))" unfolding add by simp
    then show ?thesis
      using "2.prems" True by (intro "2.hyps"(1)[OF refl refl]) (auto simp: Let_def add)
  next
    case False
    then show ?thesis using "2.prems" by (intro "2.hyps"(2)[OF refl refl]) (auto simp: Let_def)
  qed
qed

lemma bfs_total:
  assumes "grid \<noteq> []"
  shows "\<exists>steps. bfs grid s e = Some (Inr steps)"
proof -
  let ?rows = "int (length grid)" and ?cols = "int (length (grid ! 0))"
  have "\<exists>out. bfs_loop grid ?rows ?cols s e [s] [s] Map.empty [] = Some out \<and> True"
  proof (rule bfs_loop_total[where I = "\<lambda>queue visited parent steps.
        set queue \<subseteq> set visited \<and> ranked visited parent"])
    show "set [s] \<subseteq> set [s] \<and> ranked [s] Map.empty" by (simp add: ranked_def)
  next
    fix row col queue1 visited parent and steps :: "pstep list" and visited1 parent1 queue2
    assume i: "set ((row, col) # queue1) \<subseteq> set visited \<and> ranked visited parent"
      and nb: "bfs_neighbors grid ?rows ?cols (row, col) bfs_directions (visited, parent, queue1)
          = (visited1, parent1, queue2)"
    from bfs_neighbors_ranked[OF nb] i show "set queue2 \<subseteq> set visited1 \<and> ranked visited1 parent1"
      by simp
  next
    show True ..
  next
    fix queue1 visited parent and steps :: "pstep list"
    assume "set (e # queue1) \<subseteq> set visited \<and> ranked visited parent"
    then obtain rank :: "pos \<Rightarrow> nat" where "\<And>c p. parent c = Some p \<Longrightarrow> rank p < rank c"
      unfolding ranked_def by blast
    from walk_parents_total[of parent rank e "[]", OF this]
    show "\<exists>path. walk_parents parent e [] = Some path \<and> True" by simp
  qed
  with assms show ?thesis by (auto simp: bfs_def Let_def set_add_def)
qed

end
